theory Spec2Isabelle
  imports Complex_Main
begin

section \<open>The local sequence aligner (Aligner.ts)\<close>

text \<open>
  A shallow embedding of the class \<open>Aligner\<close>: the scoring matrix of the
  Smith-Waterman recurrence, the traceback from the maximal cell and the statistics.
  Residue strings are lists of characters, compared position by position as the source
  compares \<open>sequence1[x-1]\<close> with \<open>sequence2[y-1]\<close>.
\<close>

subsection \<open>Data model\<close>

datatype Result = NO_MATCH | B_NOMATCH | A_NOMATCH | GOOD_MATCH

record ResidueResult =
  iA :: int
  iB :: int
  res :: Result

record Sequence =
  name :: string
  sequence :: string

text \<open>
  \<open>SequenceStats\<close> and \<open>AlignmentStats\<close>. The fields \<open>length\<close>, \<open>end\<close> and
  \<open>permutations\<close> of the source are written \<open>seq_length\<close>, \<open>seq_end\<close> and
  \<open>stat_permutations\<close> here, and \<open>name\<close>, \<open>start\<close> follow them as \<open>seq_name\<close>,
  \<open>seq_start\<close>. The match percentage is the quotient of two counters; it is kept as an
  exact rational.
\<close>

record SequenceStats =
  seq_name :: string
  seq_length :: nat
  seq_start :: int
  seq_end :: int

record AlignmentStats =
  stat_permutations :: nat
  alignmentLength :: nat
  alignmentMatchPercent :: rat
  sequence1 :: SequenceStats
  sequence2 :: SequenceStats

text \<open>
  The only exception the engine can raise: reading the property \<open>iA\<close> of
  \<open>result[0]\<close> when \<open>result\<close> is empty is a TypeError of the runtime.
\<close>

datatype error = TypeError

subsection \<open>The Float32Array buffer\<close>

text \<open>
  The matrix is a \<open>Float32Array\<close> with two channels per cell: the score and the index
  of the next cell of the traceback. Every number the program stores is an integer, and a
  store rounds it to the nearest number with 24 significant bits, ties to the even
  significand. \<open>f32\<close> is that rounding on integers (the range of a 32-bit float ends
  near \<open>2 ^ 128\<close>, far beyond any index). A freshly allocated buffer holds zeros; a read
  outside the buffer gives \<open>undefined\<close>, here \<open>None\<close>.
\<close>

fun bitlen :: "nat \<Rightarrow> nat" where
  "bitlen n = (if n = 0 then 0 else Suc (bitlen (n div 2)))"

declare bitlen.simps [simp del]

definition f32 :: "int \<Rightarrow> int" where
  "f32 v =
    (let a = nat \<bar>v\<bar>;
         e = bitlen a - 24
     in if e = 0 then v
        else
          let q = a div 2 ^ e;
              r = a mod 2 ^ e;
              h = 2 ^ (e - 1);
              q' = (if h < r \<or> (r = h \<and> odd q) then q + 1 else q)
          in sgn v * int (q' * 2 ^ e))"

definition rd :: "int list \<Rightarrow> int \<Rightarrow> int option" where
  "rd buf k = (if 0 \<le> k \<and> nat k < length buf then Some (buf ! nat k) else None)"

abbreviation (input) matchReward :: int where "matchReward \<equiv> 1"
abbreviation (input) mismatchPenalty :: int where "mismatchPenalty \<equiv> - matchReward"
abbreviation (input) gapPenalty :: int where "gapPenalty \<equiv> 1"
abbreviation (input) channels :: nat where "channels \<equiv> 2"

subsection \<open>Filling the scoring matrix\<close>

record fill_state =
  permutations :: "int list"
  maxScore :: int
  maxIndex :: nat

text \<open>
  One iteration of the loop over the linear cell index \<open>i\<close>. Inside the loop
  \<open>1 \<le> x \<le> length sequence1\<close> and \<open>1 \<le> y \<le> length sequence2\<close>, and the three
  neighbours have smaller indices than \<open>i\<close>, so every read is in range.
\<close>

definition cell_step :: "string \<Rightarrow> string \<Rightarrow> nat \<Rightarrow> fill_state \<Rightarrow> fill_state" where
  "cell_step s1 s2 i st =
    (let W = length s1 + 1;
         x = i mod W;
         y = i div W
     in if y = 0 \<or> x = 0 then st
        else
          let permScore = (if s1 ! (x - 1) = s2 ! (y - 1) then matchReward else mismatchPenalty);
              iD = (x - 1) + (y - 1) * W;
              iL = (x - 1) + y * W;
              iT = x + (y - 1) * W;
              myScore = permutations st ! (iD * channels) + permScore;
              lScore = permutations st ! (iL * channels) - gapPenalty;
              tScore = permutations st ! (iT * channels) - gapPenalty;
              score = max (max (max myScore lScore) tScore) 0;
              nextIndex = (if myScore = score then iD
                           else if score = lScore then iL
                           else if score = tScore then iT
                           else 0);
              better = (score > maxScore st)
          in \<lparr> permutations = (permutations st)
                    [i * channels := f32 score, i * channels + 1 := f32 (int nextIndex)],
               maxScore = (if better then score else maxScore st),
               maxIndex = (if better then i else maxIndex st) \<rparr>)"

definition fill :: "string \<Rightarrow> string \<Rightarrow> fill_state" where
  "fill s1 s2 =
    (let W = length s1 + 1;
         H = length s2 + 1;
         permutationsTotal = W * H
     in fold (cell_step s1 s2) [0..<permutationsTotal]
          \<lparr> permutations = replicate (permutationsTotal * channels) 0,
            maxScore = 0, maxIndex = 0 \<rparr>)"

subsection \<open>Traceback\<close>

text \<open>
  The state of the \<open>while (true)\<close> loop. \<open>nxt\<close> is the variable \<open>next\<close>: a number read
  from the buffer, or \<open>undefined\<close>. \<open>prevA\<close> and \<open>prevB\<close> are the variables \<open>iA\<close> and
  \<open>iB\<close> of the loop, the indices of the step emitted before. \<open>result\<close> grows at its end,
  as \<open>push\<close> does.
\<close>

record tb_state =
  nxt :: "int option"
  result :: "ResidueResult list"
  prevA :: int
  prevB :: int
  gaps :: nat
  matches :: nat

text \<open>The remainder of JavaScript takes the sign of the dividend.\<close>

definition js_rem :: "int \<Rightarrow> int \<Rightarrow> int" where
  "js_rem a b = sgn a * (\<bar>a\<bar> mod \<bar>b\<bar>)"

text \<open>Indexing a string: a character, or \<open>undefined\<close> outside it.\<close>

definition char_at :: "string \<Rightarrow> int \<Rightarrow> char option" where
  "char_at s k = (if 0 \<le> k \<and> nat k < length s then Some (s ! nat k) else None)"

text \<open>
  The loop's exit test \<open>!next || next == 0 || permutations[next * channels] <= 0\<close>:
  \<open>undefined <= 0\<close> is false, so a cell outside the buffer does not stop the loop.
\<close>

definition tb_stop :: "int list \<Rightarrow> int option \<Rightarrow> bool" where
  "tb_stop buf n =
    (case n of
       None \<Rightarrow> True
     | Some k \<Rightarrow> k = 0 \<or> (case rd buf (k * int channels) of None \<Rightarrow> False | Some s \<Rightarrow> s \<le> 0))"

text \<open>The body of the loop, for \<open>next = k\<close>.\<close>

definition tb_step :: "string \<Rightarrow> string \<Rightarrow> int list \<Rightarrow> int \<Rightarrow> tb_state \<Rightarrow> tb_state" where
  "tb_step s1 s2 buf k st =
    (let W = int (length s1 + 1);
         nextIndex = rd buf (k * int channels + 1);
         x = js_rem k W;
         y = k div W;
         iA' = x - 1;
         iB' = y - 1;
         A = char_at s1 iA';
         B = char_at s2 iB';
         r = (if A \<noteq> B
              then (if prevA st = iA' then B_NOMATCH
                    else if prevB st = iB' then A_NOMATCH
                    else NO_MATCH)
              else GOOD_MATCH)
     in \<lparr> nxt = nextIndex,
          result = result st @ [\<lparr> iA = iA', iB = iB', res = r \<rparr>],
          prevA = iA',
          prevB = iB',
          gaps = (if A \<noteq> B \<and> (prevA st = iA' \<or> prevB st = iB') then gaps st + 1 else gaps st),
          matches = (if A \<noteq> B then matches st else matches st + 1) \<rparr>)"

text \<open>
  The loop itself. Nothing in the loop bounds the number of iterations, so the model is a
  partial function: \<open>None\<close> stands for a loop that never exits.
\<close>

partial_function (option) traceback :: "string \<Rightarrow> string \<Rightarrow> int list \<Rightarrow> tb_state \<Rightarrow> tb_state option" where
  "traceback s1 s2 buf st =
    (if tb_stop buf (nxt st) then Some st
     else traceback s1 s2 buf (tb_step s1 s2 buf (the (nxt st)) st))"

declare traceback.simps [code]

subsection \<open>Statistics and the result of analize\<close>

definition tb_init :: "nat \<Rightarrow> tb_state" where
  "tb_init start = \<lparr> nxt = Some (int start), result = [], prevA = 0, prevB = 0, gaps = 0, matches = 0 \<rparr>"

text \<open>
  \<open>mk_stats\<close> is the object literal assigned to \<open>_stats\<close>. It is evaluated before
  \<open>result.reverse()\<close>, on the list in emission order; \<open>result[0]\<close> and
  \<open>result.at(-1)\<close> are \<open>undefined\<close> on the empty list and reading their \<open>iA\<close> throws.
\<close>

definition mk_stats :: "Sequence \<Rightarrow> Sequence \<Rightarrow> nat \<Rightarrow> tb_state \<Rightarrow> error + AlignmentStats" where
  "mk_stats q1 q2 permutationsTotal tb =
    (case result tb of
       [] \<Rightarrow> Inl TypeError
     | r0 # rs \<Rightarrow>
         Inr \<lparr> stat_permutations = permutationsTotal,
               alignmentLength = length (result tb),
               alignmentMatchPercent = of_nat (matches tb) / of_nat (length (result tb)),
               sequence1 = \<lparr> seq_name = name q1, seq_length = length (sequence q1),
                             seq_start = iA (last (result tb)), seq_end = iA r0 \<rparr>,
               sequence2 = \<lparr> seq_name = name q2, seq_length = length (sequence q2),
                             seq_start = iB (last (result tb)), seq_end = iB r0 \<rparr> \<rparr>)"

text \<open>
  \<open>analize\<close> on the two sequences of the object: \<open>None\<close> when the traceback never
  exits, \<open>Some (Inl TypeError)\<close> when the statistics throw, and otherwise the reversed
  list (the alignment, head to tail) with the statistics.
\<close>

definition analize :: "Sequence \<Rightarrow> Sequence \<Rightarrow> (error + ResidueResult list \<times> AlignmentStats) option" where
  "analize q1 q2 =
    (let s1 = sequence q1;
         s2 = sequence q2;
         permutationsTotal = (length s1 + 1) * (length s2 + 1);
         m = fill s1 s2
     in case traceback s1 s2 (permutations m) (tb_init (maxIndex m)) of
          None \<Rightarrow> None
        | Some tb \<Rightarrow>
            Some (case mk_stats q1 q2 permutationsTotal tb of
                    Inl e \<Rightarrow> Inl e
                  | Inr stats \<Rightarrow> Inr (rev (result tb), stats)))"

section \<open>Auxiliary definitions for the proofs\<close>

text \<open>
  Nothing below is part of the program. \<open>interior\<close>, \<open>cand_score\<close> and
  \<open>cand_next\<close> name the test and the two values that \<open>cell_step\<close> computes for an
  interior cell, with the three neighbour indices written as \<open>i - W - 1\<close>, \<open>i - 1\<close> and
  \<open>i - W\<close>; \<open>fill_upto\<close> is the loop after its first \<open>k\<close> iterations;
  \<open>tb_run\<close> is the traceback loop as a step relation; \<open>cell_index\<close>, \<open>score_at\<close> and
  \<open>next_at\<close> read the finished matrix at the cell \<open>(x, y)\<close>.
\<close>

definition interior :: "nat \<Rightarrow> nat \<Rightarrow> bool" where
  "interior W i = (i mod W \<noteq> 0 \<and> i div W \<noteq> 0)"

definition cand_score :: "string \<Rightarrow> string \<Rightarrow> int list \<Rightarrow> nat \<Rightarrow> int" where
  "cand_score s1 s2 buf i =
    (let W = length s1 + 1;
         permScore = (if s1 ! (i mod W - 1) = s2 ! (i div W - 1) then 1 else - 1)
     in max (max (max (buf ! ((i - W - 1) * 2) + permScore) (buf ! ((i - 1) * 2) - 1))
              (buf ! ((i - W) * 2) - 1)) 0)"

definition cand_next :: "string \<Rightarrow> string \<Rightarrow> int list \<Rightarrow> nat \<Rightarrow> nat" where
  "cand_next s1 s2 buf i =
    (let W = length s1 + 1;
         permScore = (if s1 ! (i mod W - 1) = s2 ! (i div W - 1) then 1 else - 1);
         score = cand_score s1 s2 buf i
     in if buf ! ((i - W - 1) * 2) + permScore = score then i - W - 1
        else if score = buf ! ((i - 1) * 2) - 1 then i - 1
        else if score = buf ! ((i - W) * 2) - 1 then i - W
        else 0)"

definition ncells :: "string \<Rightarrow> string \<Rightarrow> nat" where
  "ncells s1 s2 = (length s1 + 1) * (length s2 + 1)"

definition fill_upto :: "string \<Rightarrow> string \<Rightarrow> nat \<Rightarrow> fill_state" where
  "fill_upto s1 s2 k =
     fold (cell_step s1 s2) [0..<k]
       \<lparr> permutations = replicate (ncells s1 s2 * 2) 0, maxScore = 0, maxIndex = 0 \<rparr>"

definition max_inv :: "string \<Rightarrow> string \<Rightarrow> nat \<Rightarrow> fill_state \<Rightarrow> bool" where
  "max_inv s1 s2 k st \<longleftrightarrow>
     0 \<le> maxScore st \<and>
     (\<forall>j<k. interior (length s1 + 1) j \<longrightarrow>
        cand_score s1 s2 (permutations (fill s1 s2)) j \<le> maxScore st) \<and>
     (if maxScore st = 0 then maxIndex st = 0
      else maxIndex st < k \<and> interior (length s1 + 1) (maxIndex st) \<and>
           cand_score s1 s2 (permutations (fill s1 s2)) (maxIndex st) = maxScore st \<and>
           (\<forall>j<maxIndex st. interior (length s1 + 1) j \<longrightarrow>
              cand_score s1 s2 (permutations (fill s1 s2)) j < maxScore st))"

inductive tb_run :: "string \<Rightarrow> string \<Rightarrow> int list \<Rightarrow> tb_state \<Rightarrow> tb_state \<Rightarrow> bool"
  for s1 s2 buf where
  stop: "tb_stop buf (nxt st) \<Longrightarrow> tb_run s1 s2 buf st st"
| step: "\<not> tb_stop buf (nxt st) \<Longrightarrow>
         tb_run s1 s2 buf (tb_step s1 s2 buf (the (nxt st)) st) st' \<Longrightarrow>
         tb_run s1 s2 buf st st'"

definition classify :: "char option \<Rightarrow> char option \<Rightarrow> int \<Rightarrow> int \<Rightarrow> int \<Rightarrow> int \<Rightarrow> Result" where
  "classify A B pA pB a b =
     (if A = B then GOOD_MATCH
      else if a = pA then B_NOMATCH
      else if b = pB then A_NOMATCH
      else NO_MATCH)"

definition is_gap :: "ResidueResult \<Rightarrow> bool" where
  "is_gap r = (res r = B_NOMATCH \<or> res r = A_NOMATCH)"

definition is_match :: "ResidueResult \<Rightarrow> bool" where
  "is_match r = (res r = GOOD_MATCH)"

fun classified :: "string \<Rightarrow> string \<Rightarrow> int \<Rightarrow> int \<Rightarrow> ResidueResult list \<Rightarrow> bool" where
  "classified s1 s2 pA pB [] = True"
| "classified s1 s2 pA pB (r # rs) =
     (res r = classify (char_at s1 (iA r)) (char_at s2 (iB r)) pA pB (iA r) (iB r) \<and>
      classified s1 s2 (iA r) (iB r) rs)"

definition step_rec :: "string \<Rightarrow> string \<Rightarrow> int \<Rightarrow> tb_state \<Rightarrow> ResidueResult" where
  "step_rec s1 s2 k st =
     \<lparr> iA = js_rem k (int (length s1 + 1)) - 1,
       iB = k div int (length s1 + 1) - 1,
       res = classify (char_at s1 (js_rem k (int (length s1 + 1)) - 1))
               (char_at s2 (k div int (length s1 + 1) - 1))
               (prevA st) (prevB st)
               (js_rem k (int (length s1 + 1)) - 1) (k div int (length s1 + 1) - 1) \<rparr>"

fun path_from :: "nat \<Rightarrow> nat \<Rightarrow> ResidueResult list \<Rightarrow> bool" where
  "path_from W c [] = True"
| "path_from W c (r # rs) =
     (interior W c \<and> iA r = int (c mod W) - 1 \<and> iB r = int (c div W) - 1 \<and>
      (path_from W (c - W - 1) rs \<or> path_from W (c - 1) rs \<or> path_from W (c - W) rs))"

definition step_ok :: "ResidueResult \<Rightarrow> ResidueResult \<Rightarrow> bool" where
  "step_ok r r' \<longleftrightarrow>
     (iA r' = iA r \<or> iA r' = iA r + 1) \<and>
     (iB r' = iB r \<or> iB r' = iB r + 1) \<and>
     (iA r' \<noteq> iA r \<or> iB r' \<noteq> iB r)"

definition cell_index :: "string \<Rightarrow> nat \<Rightarrow> nat \<Rightarrow> nat" where
  "cell_index s1 x y = x + y * (length s1 + 1)"

definition score_at :: "string \<Rightarrow> string \<Rightarrow> nat \<Rightarrow> nat \<Rightarrow> int" where
  "score_at s1 s2 x y = permutations (fill s1 s2) ! (cell_index s1 x y * 2)"

definition next_at :: "string \<Rightarrow> string \<Rightarrow> nat \<Rightarrow> nat \<Rightarrow> int" where
  "next_at s1 s2 x y = permutations (fill s1 s2) ! (cell_index s1 x y * 2 + 1)"

section \<open>Lemmas\<close>

lemma interior_idx_aux:
  fixes x q W i :: nat
  assumes "i = x + q" "1 \<le> x" "W \<le> q" "p = q - W"
  shows "(x - 1) + p = i - W - 1" "(x - 1) + q = i - 1" "x + p = i - W" "W + 1 \<le> i"
  using assms by arith+

lemma interior_idx:
  assumes "interior W i"
  shows "(i mod W - 1) + (i div W - 1) * W = i - W - 1"
    and "(i mod W - 1) + (i div W) * W = i - 1"
    and "i mod W + (i div W - 1) * W = i - W"
    and "W + 1 \<le> i"
proof -
  have d: "i = i mod W + i div W * W" by simp
  have m: "1 \<le> i mod W" and q: "1 \<le> i div W"
    using assms by (simp_all add: interior_def Suc_leI)
  have e: "(i div W - 1) * W = i div W * W - W"
    by (simp add: diff_mult_distrib)
  have g: "W \<le> i div W * W" using q by simp
  note a = interior_idx_aux [OF d m g e]
  show "(i mod W - 1) + (i div W - 1) * W = i - W - 1" by (rule a)
  show "(i mod W - 1) + (i div W) * W = i - 1" by (rule a)
  show "i mod W + (i div W - 1) * W = i - W" by (rule a)
  show "W + 1 \<le> i" by (rule a)
qed

lemma cell_step_boundary:
  assumes "\<not> interior (length s1 + 1) i"
  shows "cell_step s1 s2 i st = st"
proof -
  have b: "i div (length s1 + 1) = 0 \<or> i mod (length s1 + 1) = 0"
    using assms unfolding interior_def by blast
  show ?thesis
    unfolding cell_step_def Let_def by (simp only: b if_True)
qed

lemma cell_step_interior:
  assumes "interior (length s1 + 1) i"
  shows "cell_step s1 s2 i st =
     \<lparr> permutations = (permutations st)
          [i * 2 := f32 (cand_score s1 s2 (permutations st) i),
           i * 2 + 1 := f32 (int (cand_next s1 s2 (permutations st) i))],
       maxScore = (if cand_score s1 s2 (permutations st) i > maxScore st
                   then cand_score s1 s2 (permutations st) i else maxScore st),
       maxIndex = (if cand_score s1 s2 (permutations st) i > maxScore st
                   then i else maxIndex st) \<rparr>"
proof -
  have ne: "\<not> (i div (length s1 + 1) = 0 \<or> i mod (length s1 + 1) = 0)"
    using assms by (auto simp add: interior_def)
  note ix = interior_idx [OF assms]
  show ?thesis
    unfolding cell_step_def Let_def cand_next_def cand_score_def
    by (simp only: ne if_False ix)
qed

lemma fill_upto_0:
  "fill_upto s1 s2 0 = \<lparr> permutations = replicate (ncells s1 s2 * 2) 0, maxScore = 0, maxIndex = 0 \<rparr>"
  by (simp add: fill_upto_def)

lemma fill_upto_Suc: "fill_upto s1 s2 (Suc k) = cell_step s1 s2 k (fill_upto s1 s2 k)"
  by (simp add: fill_upto_def)

lemma fill_eq_upto: "fill s1 s2 = fill_upto s1 s2 (ncells s1 s2)"
  unfolding fill_def fill_upto_def ncells_def Let_def ..

lemma length_cell_step:
  "length (permutations (cell_step s1 s2 i st)) = length (permutations st)"
  by (cases "interior (length s1 + 1) i") (simp_all add: cell_step_boundary cell_step_interior)

lemma length_fill_upto: "length (permutations (fill_upto s1 s2 k)) = ncells s1 s2 * 2"
  by (induction k) (simp_all add: fill_upto_0 fill_upto_Suc length_cell_step)

lemma cell_step_other:
  "j \<noteq> i * 2 \<Longrightarrow> j \<noteq> i * 2 + 1 \<Longrightarrow>
   permutations (cell_step s1 s2 i st) ! j = permutations st ! j"
  by (cases "interior (length s1 + 1) i") (simp_all add: cell_step_boundary cell_step_interior)

lemma fill_upto_zero:
  "k * 2 \<le> j \<Longrightarrow> j < ncells s1 s2 * 2 \<Longrightarrow> permutations (fill_upto s1 s2 k) ! j = 0"
proof (induction k)
  case 0
  then show ?case by (simp add: fill_upto_0)
next
  case (Suc k)
  then show ?case by (simp add: fill_upto_Suc cell_step_other)
qed

lemma fill_upto_stable:
  "k \<le> k' \<Longrightarrow> j < k * 2 \<Longrightarrow>
   permutations (fill_upto s1 s2 k') ! j = permutations (fill_upto s1 s2 k) ! j"
proof (induction k' rule: dec_induct)
  case base
  show ?case by simp
next
  case (step n)
  then show ?case by (simp add: fill_upto_Suc cell_step_other)
qed

lemma cand_cong:
  assumes "interior (length s1 + 1) i" and "\<And>j. j < i * 2 \<Longrightarrow> b1 ! j = b2 ! j"
  shows "cand_score s1 s2 b1 i = cand_score s1 s2 b2 i"
    and "cand_next s1 s2 b1 i = cand_next s1 s2 b2 i"
proof -
  have w: "length s1 + 1 + 1 \<le> i" using interior_idx(4) [OF assms(1)] .
  have "(i - (length s1 + 1) - 1) * 2 < i * 2" "(i - 1) * 2 < i * 2" "(i - (length s1 + 1)) * 2 < i * 2"
    using w by arith+
  then have e: "b1 ! ((i - (length s1 + 1) - 1) * 2) = b2 ! ((i - (length s1 + 1) - 1) * 2)"
    "b1 ! ((i - 1) * 2) = b2 ! ((i - 1) * 2)"
    "b1 ! ((i - (length s1 + 1)) * 2) = b2 ! ((i - (length s1 + 1)) * 2)"
    using assms(2) by blast+
  show s: "cand_score s1 s2 b1 i = cand_score s1 s2 b2 i"
    unfolding cand_score_def Let_def by (simp only: e)
  show "cand_next s1 s2 b1 i = cand_next s1 s2 b2 i"
    unfolding cand_next_def Let_def by (simp only: e s)
qed

lemma cand_at_step:
  assumes "i < ncells s1 s2" and "interior (length s1 + 1) i"
  shows "cand_score s1 s2 (permutations (fill_upto s1 s2 i)) i
           = cand_score s1 s2 (permutations (fill s1 s2)) i"
    and "cand_next s1 s2 (permutations (fill_upto s1 s2 i)) i
           = cand_next s1 s2 (permutations (fill s1 s2)) i"
proof -
  have le: "i \<le> ncells s1 s2" using assms(1) by simp
  have "\<And>j. j < i * 2 \<Longrightarrow> permutations (fill_upto s1 s2 i) ! j = permutations (fill s1 s2) ! j"
    unfolding fill_eq_upto using fill_upto_stable [OF le] by simp
  then show "cand_score s1 s2 (permutations (fill_upto s1 s2 i)) i
           = cand_score s1 s2 (permutations (fill s1 s2)) i"
    and "cand_next s1 s2 (permutations (fill_upto s1 s2 i)) i
           = cand_next s1 s2 (permutations (fill s1 s2)) i"
    using cand_cong [OF assms(2)] by blast+
qed

lemma buf_at_step:
  assumes "i < ncells s1 s2" and "j < Suc i * 2"
  shows "permutations (fill s1 s2) ! j = permutations (fill_upto s1 s2 (Suc i)) ! j"
proof -
  have le: "Suc i \<le> ncells s1 s2" using assms(1) by simp
  show ?thesis unfolding fill_eq_upto using fill_upto_stable [OF le assms(2)] .
qed

lemma buf_boundary:
  assumes "i < ncells s1 s2" and "\<not> interior (length s1 + 1) i"
  shows "permutations (fill s1 s2) ! (i * 2) = 0"
    and "permutations (fill s1 s2) ! (i * 2 + 1) = 0"
proof -
  have a: "fill_upto s1 s2 (Suc i) = fill_upto s1 s2 i"
    by (simp only: fill_upto_Suc cell_step_boundary [OF assms(2)])
  have r: "i * 2 < ncells s1 s2 * 2" "i * 2 + 1 < ncells s1 s2 * 2" using assms(1) by arith+
  have "permutations (fill s1 s2) ! (i * 2) = permutations (fill_upto s1 s2 i) ! (i * 2)"
    using buf_at_step [OF assms(1), of "i * 2"] a by simp
  then show "permutations (fill s1 s2) ! (i * 2) = 0"
    using fill_upto_zero [OF _ r(1), of i] by simp
  have "permutations (fill s1 s2) ! (i * 2 + 1) = permutations (fill_upto s1 s2 i) ! (i * 2 + 1)"
    using buf_at_step [OF assms(1), of "i * 2 + 1"] a by simp
  then show "permutations (fill s1 s2) ! (i * 2 + 1) = 0"
    using fill_upto_zero [OF _ r(2), of i] by simp
qed

lemma buf_interior:
  assumes "i < ncells s1 s2" and "interior (length s1 + 1) i"
  shows "permutations (fill s1 s2) ! (i * 2) = f32 (cand_score s1 s2 (permutations (fill s1 s2)) i)"
    and "permutations (fill s1 s2) ! (i * 2 + 1)
           = f32 (int (cand_next s1 s2 (permutations (fill s1 s2)) i))"
proof -
  have l: "i * 2 + 1 < length (permutations (fill_upto s1 s2 i))"
    using assms(1) by (simp add: length_fill_upto)
  have "permutations (fill s1 s2) ! (i * 2) = permutations (fill_upto s1 s2 (Suc i)) ! (i * 2)"
    using buf_at_step [OF assms(1), of "i * 2"] by simp
  also have "\<dots> = f32 (cand_score s1 s2 (permutations (fill_upto s1 s2 i)) i)"
    using l by (simp add: fill_upto_Suc cell_step_interior [OF assms(2)])
  finally show "permutations (fill s1 s2) ! (i * 2) = f32 (cand_score s1 s2 (permutations (fill s1 s2)) i)"
    by (simp only: cand_at_step [OF assms])
  have "permutations (fill s1 s2) ! (i * 2 + 1) = permutations (fill_upto s1 s2 (Suc i)) ! (i * 2 + 1)"
    using buf_at_step [OF assms(1), of "i * 2 + 1"] by simp
  also have "\<dots> = f32 (int (cand_next s1 s2 (permutations (fill_upto s1 s2 i)) i))"
    using l by (simp add: fill_upto_Suc cell_step_interior [OF assms(2)])
  finally show "permutations (fill s1 s2) ! (i * 2 + 1)
           = f32 (int (cand_next s1 s2 (permutations (fill s1 s2)) i))"
    by (simp only: cand_at_step [OF assms])
qed

lemma bitlen_le: "n < 2 ^ k \<Longrightarrow> bitlen n \<le> k"
proof (induction k arbitrary: n)
  case 0
  then show ?case by (subst bitlen.simps) simp
next
  case (Suc k)
  show ?case
  proof (cases "n = 0")
    case True
    then show ?thesis by (subst bitlen.simps) simp
  next
    case False
    have "n div 2 < 2 ^ k" using Suc.prems by simp
    then have "bitlen (n div 2) \<le> k" by (rule Suc.IH)
    then show ?thesis using False by (subst bitlen.simps) simp
  qed
qed

lemma f32_exact:
  assumes "\<bar>v\<bar> < 2 ^ 24"
  shows "f32 v = v"
proof -
  have "nat \<bar>v\<bar> < 2 ^ 24" using assms by (simp add: nat_less_iff)
  then have "bitlen (nat \<bar>v\<bar>) - 24 = 0" using bitlen_le [of "nat \<bar>v\<bar>" 24] by simp
  then show ?thesis unfolding f32_def Let_def by simp
qed

lemma f32_nonneg:
  assumes "0 \<le> v"
  shows "0 \<le> f32 v"
proof -
  have "0 \<le> sgn v" using assms by (simp add: sgn_if)
  then have "\<And>k::nat. 0 \<le> sgn v * int k" by simp
  then show ?thesis unfolding f32_def Let_def using assms by (simp only: split: if_split) blast
qed

lemma cand_score_nonneg: "0 \<le> cand_score s1 s2 buf i"
  unfolding cand_score_def Let_def by simp

lemma cand_score_le:
  assumes "interior (length s1 + 1) i"
    and "buf ! ((i - (length s1 + 1) - 1) * 2) \<le> int (i - (length s1 + 1) - 1)"
    and "buf ! ((i - 1) * 2) \<le> int (i - 1)"
    and "buf ! ((i - (length s1 + 1)) * 2) \<le> int (i - (length s1 + 1))"
  shows "cand_score s1 s2 buf i \<le> int i"
proof -
  have w: "length s1 + 1 + 1 \<le> i" using interior_idx(4) [OF assms(1)] .
  have a: "int (i - (length s1 + 1) - 1) + 1 \<le> int i" "int (i - 1) \<le> int i" "int (i - (length s1 + 1)) \<le> int i"
    using w by arith+
  show ?thesis
    unfolding cand_score_def Let_def using assms(2-4) a by (simp split: if_split)
qed

lemma cand_next_less:
  assumes "interior (length s1 + 1) i"
  shows "cand_next s1 s2 buf i < i"
proof -
  have w: "length s1 + 1 + 1 \<le> i" using interior_idx(4) [OF assms(1)] .
  have a: "i - (length s1 + 1) - 1 < i" "i - 1 < i" "i - (length s1 + 1) < i" "0 < i"
    using w by arith+
  show ?thesis unfolding cand_next_def Let_def using a by (simp only: split: if_split) blast
qed

lemma score_nonneg:
  assumes "i < ncells s1 s2"
  shows "0 \<le> permutations (fill s1 s2) ! (i * 2)"
proof (cases "interior (length s1 + 1) i")
  case True
  show ?thesis by (simp only: buf_interior(1) [OF assms True] f32_nonneg [OF cand_score_nonneg])
next
  case False
  show ?thesis by (simp only: buf_boundary(1) [OF assms False])
qed

lemma score_le_index:
  assumes "ncells s1 s2 \<le> 2 ^ 24"
  shows "i < ncells s1 s2 \<Longrightarrow> permutations (fill s1 s2) ! (i * 2) \<le> int i"
proof (induction i rule: less_induct)
  case (less i)
  show ?case
  proof (cases "interior (length s1 + 1) i")
    case False
    show ?thesis by (simp add: buf_boundary(1) [OF less.prems False])
  next
    case True
    have w: "length s1 + 1 + 1 \<le> i" using interior_idx(4) [OF True] .
    have lt: "i - (length s1 + 1) - 1 < i" "i - 1 < i" "i - (length s1 + 1) < i"
      using w by arith+
    have c: "cand_score s1 s2 (permutations (fill s1 s2)) i \<le> int i"
      using less.IH [OF lt(1)] less.IH [OF lt(2)] less.IH [OF lt(3)] lt less.prems
      by (intro cand_score_le [OF True]) simp_all
    have "int i < 2 ^ 24" using less.prems assms by simp
    then have "\<bar>cand_score s1 s2 (permutations (fill s1 s2)) i\<bar> < 2 ^ 24"
      using c cand_score_nonneg [of s1 s2 "permutations (fill s1 s2)" i] by simp
    then show ?thesis using c by (simp only: buf_interior(1) [OF less.prems True] f32_exact)
  qed
qed

lemma buf_exact:
  assumes "ncells s1 s2 \<le> 2 ^ 24" and "i < ncells s1 s2" and "interior (length s1 + 1) i"
  shows "permutations (fill s1 s2) ! (i * 2) = cand_score s1 s2 (permutations (fill s1 s2)) i"
    and "permutations (fill s1 s2) ! (i * 2 + 1) = int (cand_next s1 s2 (permutations (fill s1 s2)) i)"
proof -
  have b: "int i < 2 ^ 24" using assms(1,2) by simp
  have "f32 (cand_score s1 s2 (permutations (fill s1 s2)) i) \<le> int i"
    using score_le_index [OF assms(1,2)] by (simp only: buf_interior(1) [OF assms(2,3)])
  have w: "length s1 + 1 + 1 \<le> i" using interior_idx(4) [OF assms(3)] .
  have lt: "i - (length s1 + 1) - 1 < ncells s1 s2" "i - 1 < ncells s1 s2" "i - (length s1 + 1) < ncells s1 s2"
    using w assms(2) by arith+
  have c: "cand_score s1 s2 (permutations (fill s1 s2)) i \<le> int i"
    using score_le_index [OF assms(1) lt(1)] score_le_index [OF assms(1) lt(2)]
      score_le_index [OF assms(1) lt(3)]
    by (intro cand_score_le [OF assms(3)]) simp_all
  then have "\<bar>cand_score s1 s2 (permutations (fill s1 s2)) i\<bar> < 2 ^ 24"
    using b cand_score_nonneg [of s1 s2 "permutations (fill s1 s2)" i] by simp
  then show "permutations (fill s1 s2) ! (i * 2) = cand_score s1 s2 (permutations (fill s1 s2)) i"
    by (simp only: buf_interior(1) [OF assms(2,3)] f32_exact)
  have "int (cand_next s1 s2 (permutations (fill s1 s2)) i) < int i"
    using cand_next_less [OF assms(3)] by simp
  then have "\<bar>int (cand_next s1 s2 (permutations (fill s1 s2)) i)\<bar> < 2 ^ 24"
    using b by simp
  then show "permutations (fill s1 s2) ! (i * 2 + 1) = int (cand_next s1 s2 (permutations (fill s1 s2)) i)"
    by (simp only: buf_interior(2) [OF assms(2,3)] f32_exact)
qed

lemma max_inv_step:
  assumes inv: "max_inv s1 s2 k st"
    and c: "interior (length s1 + 1) k \<Longrightarrow>
            cand_score s1 s2 (permutations st) k = cand_score s1 s2 (permutations (fill s1 s2)) k"
  shows "max_inv s1 s2 (Suc k) (cell_step s1 s2 k st)"
proof (cases "interior (length s1 + 1) k")
  case False
  then show ?thesis
    using inv unfolding cell_step_boundary [OF False] max_inv_def
    by (auto simp add: less_Suc_eq)
next
  case True
  define m where "m = cand_score s1 s2 (permutations (fill s1 s2)) k"
  have ms: "maxScore (cell_step s1 s2 k st) = (if maxScore st < m then m else maxScore st)"
    and mi: "maxIndex (cell_step s1 s2 k st) = (if maxScore st < m then k else maxIndex st)"
    by (simp_all add: cell_step_interior [OF True] c [OF True] m_def)
  show ?thesis
  proof (cases "maxScore st < m")
    case better: True
    have "0 \<le> maxScore st" using inv by (simp add: max_inv_def)
    then have pos: "0 < m" using better by simp
    have old: "\<forall>j<k. interior (length s1 + 1) j \<longrightarrow>
        cand_score s1 s2 (permutations (fill s1 s2)) j < m"
      using inv better unfolding max_inv_def by fastforce
    show ?thesis
      unfolding max_inv_def ms mi using better pos old True
      by (auto simp add: less_Suc_eq m_def)
  next
    case worse: False
    then have le: "m \<le> maxScore st" by simp
    have e: "maxScore (cell_step s1 s2 k st) = maxScore st"
      "maxIndex (cell_step s1 s2 k st) = maxIndex st"
      using worse ms mi by simp_all
    show ?thesis
      unfolding max_inv_def e using inv le unfolding max_inv_def
      by (auto simp add: less_Suc_eq m_def)
  qed
qed

lemma max_inv_upto:
  "k \<le> ncells s1 s2 \<Longrightarrow> max_inv s1 s2 k (fill_upto s1 s2 k)"
proof (induction k)
  case 0
  show ?case by (simp add: max_inv_def fill_upto_0)
next
  case (Suc k)
  have kn: "k < ncells s1 s2" using Suc.prems by simp
  have "max_inv s1 s2 k (fill_upto s1 s2 k)" using Suc.IH kn by simp
  then show ?case
    unfolding fill_upto_Suc using cand_at_step(1) [OF kn] by (rule max_inv_step)
qed

lemma max_inv_fill: "max_inv s1 s2 (ncells s1 s2) (fill s1 s2)"
  unfolding fill_eq_upto [of s1 s2] using max_inv_upto [of "ncells s1 s2" s1 s2]
  by (simp add: fill_eq_upto)

lemma tb_run_traceback:
  "tb_run s1 s2 buf st st' \<Longrightarrow> traceback s1 s2 buf st = Some st'"
proof (induction rule: tb_run.induct)
  case (stop st)
  then show ?case by (subst traceback.simps) simp
next
  case (step st st')
  then show ?case by (subst traceback.simps) simp
qed

lemma traceback_tb_run:
  assumes "traceback s1 s2 buf st = Some st'"
  shows "tb_run s1 s2 buf st st'"
  using assms
proof (induction rule: traceback.raw_induct [rotated 1, consumes 1])
  case (1 tb s1 s2 buf st st')
  show ?case
  proof (cases "tb_stop buf (nxt st)")
    case True
    then have "st' = st" using "1.hyps" by simp
    then show ?thesis using True by (simp add: tb_run.stop)
  next
    case False
    then have e: "tb s1 s2 buf (tb_step s1 s2 buf (the (nxt st)) st) = Some st'"
      using "1.hyps" by simp
    have "tb_run s1 s2 buf (tb_step s1 s2 buf (the (nxt st)) st) st'"
      using "1.IH" [OF e] .
    then show ?thesis using False by (rule tb_run.step [rotated])
  qed
qed

lemma tb_step_eq:
  "tb_step s1 s2 buf k st =
     \<lparr> nxt = rd buf (k * 2 + 1),
       result = result st @ [step_rec s1 s2 k st],
       prevA = iA (step_rec s1 s2 k st),
       prevB = iB (step_rec s1 s2 k st),
       gaps = gaps st + (if is_gap (step_rec s1 s2 k st) then 1 else 0),
       matches = matches st + (if is_match (step_rec s1 s2 k st) then 1 else 0) \<rparr>"
  by (simp add: tb_step_def step_rec_def classify_def is_gap_def is_match_def Let_def)

lemma step_rec_classified:
  "res (step_rec s1 s2 k st) =
     classify (char_at s1 (iA (step_rec s1 s2 k st))) (char_at s2 (iB (step_rec s1 s2 k st)))
       (prevA st) (prevB st) (iA (step_rec s1 s2 k st)) (iB (step_rec s1 s2 k st))"
  by (simp add: step_rec_def)

lemma tb_run_classified:
  "tb_run s1 s2 buf st st' \<Longrightarrow>
   \<exists>rs. result st' = result st @ rs \<and>
        classified s1 s2 (prevA st) (prevB st) rs \<and>
        gaps st' = gaps st + length (filter is_gap rs) \<and>
        matches st' = matches st + length (filter is_match rs)"
proof (induction rule: tb_run.induct)
  case (stop st)
  show ?case by simp
next
  case (step st st')
  define r where "r = step_rec s1 s2 (the (nxt st)) st"
  obtain rs where rs: "result st' = result (tb_step s1 s2 buf (the (nxt st)) st) @ rs"
    "classified s1 s2 (prevA (tb_step s1 s2 buf (the (nxt st)) st))
        (prevB (tb_step s1 s2 buf (the (nxt st)) st)) rs"
    "gaps st' = gaps (tb_step s1 s2 buf (the (nxt st)) st) + length (filter is_gap rs)"
    "matches st' = matches (tb_step s1 s2 buf (the (nxt st)) st) + length (filter is_match rs)"
    using step.IH by blast
  have "result st' = result st @ (r # rs)"
    using rs(1) by (simp add: tb_step_eq r_def)
  moreover have "classified s1 s2 (prevA st) (prevB st) (r # rs)"
    using rs(2) step_rec_classified [of s1 s2 "the (nxt st)" st] by (simp add: tb_step_eq r_def)
  moreover have "gaps st' = gaps st + length (filter is_gap (r # rs))"
    using rs(3) by (simp add: tb_step_eq r_def)
  moreover have "matches st' = matches st + length (filter is_match (r # rs))"
    using rs(4) by (simp add: tb_step_eq r_def)
  ultimately show ?case by blast
qed

lemma classified_nth:
  "classified s1 s2 pA pB rs \<Longrightarrow> j < length rs \<Longrightarrow>
   res (rs ! j) =
     classify (char_at s1 (iA (rs ! j))) (char_at s2 (iB (rs ! j)))
       (if j = 0 then pA else iA (rs ! (j - 1)))
       (if j = 0 then pB else iB (rs ! (j - 1)))
       (iA (rs ! j)) (iB (rs ! j))"
proof (induction rs arbitrary: pA pB j)
  case Nil
  then show ?case by simp
next
  case (Cons r rs)
  show ?case
  proof (cases j)
    case 0
    then show ?thesis using Cons.prems by simp
  next
    case (Suc k)
    have "res (rs ! k) =
      classify (char_at s1 (iA (rs ! k))) (char_at s2 (iB (rs ! k)))
       (if k = 0 then iA r else iA (rs ! (k - 1)))
       (if k = 0 then iB r else iB (rs ! (k - 1)))
       (iA (rs ! k)) (iB (rs ! k))"
      using Cons.prems Suc by (intro Cons.IH) simp_all
    then show ?thesis using Suc by (cases k) simp_all
  qed
qed

lemma length_fill: "length (permutations (fill s1 s2)) = ncells s1 s2 * 2"
  by (simp add: fill_eq_upto length_fill_upto)

lemma rd_fill:
  assumes "c < ncells s1 s2"
  shows "rd (permutations (fill s1 s2)) (int c * 2) = Some (permutations (fill s1 s2) ! (c * 2))"
    and "rd (permutations (fill s1 s2)) (int c * 2 + 1) = Some (permutations (fill s1 s2) ! (c * 2 + 1))"
proof -
  have a: "nat (int c * 2) = c * 2" "nat (int c * 2 + 1) = c * 2 + 1" by (simp_all add: nat_add_distrib nat_mult_distrib)
  have b: "c * 2 < ncells s1 s2 * 2" "c * 2 + 1 < ncells s1 s2 * 2" using assms by arith+
  show "rd (permutations (fill s1 s2)) (int c * 2) = Some (permutations (fill s1 s2) ! (c * 2))"
    unfolding rd_def using b(1) by (simp only: a length_fill) simp
  show "rd (permutations (fill s1 s2)) (int c * 2 + 1) = Some (permutations (fill s1 s2) ! (c * 2 + 1))"
    unfolding rd_def using b(2) by (simp only: a length_fill) simp
qed

lemma tb_stop_fill:
  assumes "c < ncells s1 s2"
  shows "tb_stop (permutations (fill s1 s2)) (Some (int c))
           \<longleftrightarrow> c = 0 \<or> permutations (fill s1 s2) ! (c * 2) \<le> 0"
  by (simp add: tb_stop_def rd_fill(1) [OF assms])

lemma positive_interior:
  assumes "c < ncells s1 s2" and "0 < permutations (fill s1 s2) ! (c * 2)"
  shows "interior (length s1 + 1) c"
  using buf_boundary(1) [OF assms(1)] assms(2) by fastforce

lemma js_rem_nat: "js_rem (int c) (int W) = int (c mod W)"
  by (cases "c = 0") (simp_all add: js_rem_def zmod_int)

lemma cell_coords:
  assumes "c < ncells s1 s2" and "interior (length s1 + 1) c"
  shows "1 \<le> c mod (length s1 + 1)" "c mod (length s1 + 1) - 1 < length s1"
    "1 \<le> c div (length s1 + 1)" "c div (length s1 + 1) - 1 < length s2"
proof -
  show a: "1 \<le> c mod (length s1 + 1)" using assms(2) by (simp add: interior_def Suc_leI)
  have "c mod (length s1 + 1) < length s1 + 1" by simp
  then show "c mod (length s1 + 1) - 1 < length s1" using a by arith
  show b: "1 \<le> c div (length s1 + 1)" using assms(2) by (simp add: interior_def Suc_leI)
  have "c < (length s2 + 1) * (length s1 + 1)" using assms(1) by (simp add: ncells_def mult.commute)
  then have "c div (length s1 + 1) < length s2 + 1" by (rule less_mult_imp_div_less)
  then show "c div (length s1 + 1) - 1 < length s2" using b by arith
qed

lemma step_rec_fill:
  assumes "c < ncells s1 s2" and "interior (length s1 + 1) c"
  shows "iA (step_rec s1 s2 (int c) st) = int (c mod (length s1 + 1)) - 1"
    and "iB (step_rec s1 s2 (int c) st) = int (c div (length s1 + 1)) - 1"
    and "is_match (step_rec s1 s2 (int c) st)
           \<longleftrightarrow> s1 ! (c mod (length s1 + 1) - 1) = s2 ! (c div (length s1 + 1) - 1)"
proof -
  note cc = cell_coords [OF assms]
  have d: "int c div int (length s1 + 1) = int (c div (length s1 + 1))" by (simp add: zdiv_int)
  have n: "nat (int (c mod (length s1 + 1)) - 1) = c mod (length s1 + 1) - 1"
    "nat (int (c div (length s1 + 1)) - 1) = c div (length s1 + 1) - 1"
    by (simp_all add: nat_diff_distrib')
  have p: "0 \<le> int (c mod (length s1 + 1)) - 1" "0 \<le> int (c div (length s1 + 1)) - 1"
    using cc(1,3) by simp_all
  have ca: "char_at s1 (int (c mod (length s1 + 1)) - 1) = Some (s1 ! (c mod (length s1 + 1) - 1))"
    unfolding char_at_def using p(1) cc(2) by (simp only: n) simp
  have cb: "char_at s2 (int (c div (length s1 + 1)) - 1) = Some (s2 ! (c div (length s1 + 1) - 1))"
    unfolding char_at_def using p(2) cc(4) by (simp only: n) simp
  show "iA (step_rec s1 s2 (int c) st) = int (c mod (length s1 + 1)) - 1"
    unfolding step_rec_def by (simp only: js_rem_nat) simp
  show "iB (step_rec s1 s2 (int c) st) = int (c div (length s1 + 1)) - 1"
    unfolding step_rec_def by (simp only: d) simp
  show "is_match (step_rec s1 s2 (int c) st)
           \<longleftrightarrow> s1 ! (c mod (length s1 + 1) - 1) = s2 ! (c div (length s1 + 1) - 1)"
    unfolding step_rec_def is_match_def
    by (simp only: js_rem_nat d ca cb) (simp add: classify_def)
qed

lemma max3_pos:
  fixes a b c s :: int
  assumes "s = max (max (max a b) c) 0" and "0 < s"
  shows "a = s \<or> s = b \<or> s = c"
  using assms by (simp add: max_def split: if_splits)

lemma cand_next_cases:
  assumes "0 < cand_score s1 s2 buf i"
  shows "cand_next s1 s2 buf i = i - (length s1 + 1) - 1 \<or>
         cand_next s1 s2 buf i = i - 1 \<or>
         cand_next s1 s2 buf i = i - (length s1 + 1)"
proof -
  define p :: int where "p = (if s1 ! (i mod (length s1 + 1) - 1) = s2 ! (i div (length s1 + 1) - 1) then 1 else - 1)"
  define a where "a = buf ! ((i - (length s1 + 1) - 1) * 2) + p"
  define b where "b = buf ! ((i - 1) * 2) - 1"
  define c where "c = buf ! ((i - (length s1 + 1)) * 2) - 1"
  have s: "cand_score s1 s2 buf i = max (max (max a b) c) 0"
    by (simp add: cand_score_def Let_def a_def b_def c_def p_def)
  have n: "cand_next s1 s2 buf i =
     (if a = cand_score s1 s2 buf i then i - (length s1 + 1) - 1
      else if cand_score s1 s2 buf i = b then i - 1
      else if cand_score s1 s2 buf i = c then i - (length s1 + 1) else 0)"
    by (simp add: cand_next_def Let_def a_def b_def c_def p_def)
  have "a = cand_score s1 s2 buf i \<or> cand_score s1 s2 buf i = b \<or> cand_score s1 s2 buf i = c"
    using max3_pos [OF s assms] .
  then show ?thesis unfolding n by presburger
qed

lemma stop_pred_match:
  assumes bound: "ncells s1 s2 \<le> 2 ^ 24"
    and c: "c < ncells s1 s2" and pos: "0 < permutations (fill s1 s2) ! (c * 2)"
    and stop: "cand_next s1 s2 (permutations (fill s1 s2)) c = 0 \<or>
               permutations (fill s1 s2) ! (cand_next s1 s2 (permutations (fill s1 s2)) c * 2) \<le> 0"
  shows "s1 ! (c mod (length s1 + 1) - 1) = s2 ! (c div (length s1 + 1) - 1)"
proof -
  define P where "P = permutations (fill s1 s2)"
  have int: "interior (length s1 + 1) c" using positive_interior [OF c pos] .
  have w: "length s1 + 1 + 1 \<le> c" using interior_idx(4) [OF int] .
  have sc: "cand_score s1 s2 P c = P ! (c * 2)"
    unfolding P_def using buf_exact(1) [OF bound c int] by simp
  have z0: "P ! 0 = 0"
  proof -
    have "0 < ncells s1 s2" using c by simp
    moreover have "\<not> interior (length s1 + 1) 0" by (simp add: interior_def)
    ultimately show ?thesis unfolding P_def using buf_boundary(1) [of 0 s1 s2] by simp
  qed
  have st: "P ! (cand_next s1 s2 P c * 2) \<le> 0"
    using stop z0 unfolding P_def [symmetric] by auto
  define p :: int where "p = (if s1 ! (c mod (length s1 + 1) - 1) = s2 ! (c div (length s1 + 1) - 1) then 1 else - 1)"
  define a where "a = P ! ((c - (length s1 + 1) - 1) * 2) + p"
  define b where "b = P ! ((c - 1) * 2) - 1"
  define d where "d = P ! ((c - (length s1 + 1)) * 2) - 1"
  have s: "cand_score s1 s2 P c = max (max (max a b) d) 0"
    by (simp add: cand_score_def Let_def a_def b_def d_def p_def)
  have n: "cand_next s1 s2 P c =
     (if a = cand_score s1 s2 P c then c - (length s1 + 1) - 1
      else if cand_score s1 s2 P c = b then c - 1
      else if cand_score s1 s2 P c = d then c - (length s1 + 1) else 0)"
    by (simp add: cand_next_def Let_def a_def b_def d_def p_def)
  have pos': "0 < cand_score s1 s2 P c" using pos sc P_def by simp
  have three: "a = cand_score s1 s2 P c \<or> cand_score s1 s2 P c = b \<or> cand_score s1 s2 P c = d"
    using max3_pos [OF s pos'] .
  have "a = cand_score s1 s2 P c"
  proof (rule ccontr)
    assume na: "a \<noteq> cand_score s1 s2 P c"
    show False
    proof (cases "cand_score s1 s2 P c = b")
      case True
      then have "cand_next s1 s2 P c = c - 1" using na n by simp
      then have "P ! ((c - 1) * 2) \<le> 0" using st by simp
      then show False using True pos' b_def by simp
    next
      case False
      then have e: "cand_score s1 s2 P c = d" using three na by simp
      then have "cand_next s1 s2 P c = c - (length s1 + 1)" using na False n by simp
      then have "P ! ((c - (length s1 + 1)) * 2) \<le> 0" using st by simp
      then show False using e pos' d_def by simp
    qed
  qed
  moreover from this have "cand_next s1 s2 P c = c - (length s1 + 1) - 1" using n by simp
  then have "P ! ((c - (length s1 + 1) - 1) * 2) \<le> 0" using st by simp
  ultimately have "0 < p" using pos' a_def by simp
  then show ?thesis unfolding p_def by (simp split: if_splits)
qed

lemma max_cell_match:
  assumes bound: "ncells s1 s2 \<le> 2 ^ 24" and nz: "maxScore (fill s1 s2) \<noteq> 0"
  shows "maxIndex (fill s1 s2) < ncells s1 s2"
    and "interior (length s1 + 1) (maxIndex (fill s1 s2))"
    and "permutations (fill s1 s2) ! (maxIndex (fill s1 s2) * 2) = maxScore (fill s1 s2)"
    and "0 < maxScore (fill s1 s2)"
    and "s1 ! (maxIndex (fill s1 s2) mod (length s1 + 1) - 1)
           = s2 ! (maxIndex (fill s1 s2) div (length s1 + 1) - 1)"
proof -
  define P where "P = permutations (fill s1 s2)"
  define c where "c = maxIndex (fill s1 s2)"
  define M where "M = maxScore (fill s1 s2)"
  have inv: "max_inv s1 s2 (ncells s1 s2) (fill s1 s2)" by (rule max_inv_fill)
  have M0: "0 \<le> M" using inv by (simp add: max_inv_def M_def)
  then show Mpos: "0 < maxScore (fill s1 s2)" using nz M_def by simp
  have c: "c < ncells s1 s2" and int: "interior (length s1 + 1) c"
    and cs: "cand_score s1 s2 P c = M"
    and before: "\<And>j. j < c \<Longrightarrow> interior (length s1 + 1) j \<Longrightarrow> cand_score s1 s2 P j < M"
    using inv nz unfolding max_inv_def c_def M_def P_def by simp_all
  show "maxIndex (fill s1 s2) < ncells s1 s2" using c c_def by simp
  show "interior (length s1 + 1) (maxIndex (fill s1 s2))" using int c_def by simp
  show "permutations (fill s1 s2) ! (maxIndex (fill s1 s2) * 2) = maxScore (fill s1 s2)"
    using buf_exact(1) [OF bound c int] cs unfolding P_def c_def M_def by simp
  have lt: "P ! (j * 2) < M" if "j < c" for j
  proof (cases "interior (length s1 + 1) j")
    case True
    have "j < ncells s1 s2" using that c by simp
    then show ?thesis using buf_exact(1) [OF bound _ True] before [OF that True] P_def by simp
  next
    case False
    have "j < ncells s1 s2" using that c by simp
    then show ?thesis using buf_boundary(1) [OF _ False] Mpos P_def M_def by simp
  qed
  have w: "length s1 + 1 + 1 \<le> c" using interior_idx(4) [OF int] .
  have l: "c - (length s1 + 1) - 1 < c" "c - 1 < c" "c - (length s1 + 1) < c" using w by arith+
  define p :: int where "p = (if s1 ! (c mod (length s1 + 1) - 1) = s2 ! (c div (length s1 + 1) - 1) then 1 else - 1)"
  have s: "M = max (max (max (P ! ((c - (length s1 + 1) - 1) * 2) + p) (P ! ((c - 1) * 2) - 1))
               (P ! ((c - (length s1 + 1)) * 2) - 1)) 0"
    using cs unfolding cand_score_def Let_def p_def by (rule sym)
  have "0 < p" using s lt [OF l(1)] lt [OF l(2)] lt [OF l(3)] Mpos M_def
    by (simp add: max_def split: if_splits)
  then show "s1 ! (maxIndex (fill s1 s2) mod (length s1 + 1) - 1)
           = s2 ! (maxIndex (fill s1 s2) div (length s1 + 1) - 1)"
    unfolding p_def c_def by (simp split: if_splits)
qed

lemma max_zero_index:
  assumes "maxScore (fill s1 s2) = 0"
  shows "maxIndex (fill s1 s2) = 0"
  using max_inv_fill [of s1 s2] assms by (simp add: max_inv_def)

lemma tb_good:
  assumes bound: "ncells s1 s2 \<le> 2 ^ 24"
  shows "c < ncells s1 s2 \<Longrightarrow> nxt st = Some (int c) \<Longrightarrow>
    \<exists>st' rs. tb_run s1 s2 (permutations (fill s1 s2)) st st' \<and>
       result st' = result st @ rs \<and>
       path_from (length s1 + 1) c rs \<and>
       (rs = [] \<longleftrightarrow> c = 0 \<or> permutations (fill s1 s2) ! (c * 2) \<le> 0) \<and>
       (rs \<noteq> [] \<longrightarrow> is_match (last rs)) \<and>
       (rs \<noteq> [] \<longrightarrow>
          (is_match (hd rs) \<longleftrightarrow>
             s1 ! (c mod (length s1 + 1) - 1) = s2 ! (c div (length s1 + 1) - 1)))"
proof (induction c arbitrary: st rule: less_induct)
  case (less c)
  define P where "P = permutations (fill s1 s2)"
  show ?case
  proof (cases "c = 0 \<or> P ! (c * 2) \<le> 0")
    case True
    then have "tb_stop P (nxt st)"
      unfolding P_def using tb_stop_fill [OF less.prems(1)] less.prems(2) by simp
    then have "tb_run s1 s2 P st st" by (rule tb_run.stop)
    then show ?thesis using True unfolding P_def by (intro exI [of _ st] exI [of _ "[]"]) simp
  next
    case False
    then have c0: "c \<noteq> 0" and pos: "0 < P ! (c * 2)" by simp_all
    have ns: "\<not> tb_stop P (nxt st)"
      unfolding P_def using tb_stop_fill [OF less.prems(1)] less.prems(2) False P_def by simp
    have int: "interior (length s1 + 1) c"
      using positive_interior [OF less.prems(1)] pos P_def by simp
    define c' where "c' = cand_next s1 s2 P c"
    define r where "r = step_rec s1 s2 (int c) st"
    define st1 where "st1 = tb_step s1 s2 P (the (nxt st)) st"
    have lt: "c' < c" unfolding c'_def by (rule cand_next_less [OF int])
    have c'n: "c' < ncells s1 s2" using lt less.prems(1) by simp
    have the: "the (nxt st) = int c" using less.prems(2) by simp
    have nx: "nxt st1 = Some (int c')"
      unfolding st1_def the tb_step_eq c'_def P_def
      using rd_fill(2) [OF less.prems(1)] buf_exact(2) [OF bound less.prems(1) int] by simp
    have res1: "result st1 = result st @ [r]"
      unfolding st1_def the tb_step_eq r_def by simp
    obtain st' rs where IH: "tb_run s1 s2 P st1 st'" "result st' = result st1 @ rs"
      "path_from (length s1 + 1) c' rs"
      "rs = [] \<longleftrightarrow> c' = 0 \<or> P ! (c' * 2) \<le> 0"
      "rs \<noteq> [] \<longrightarrow> is_match (last rs)"
      using less.IH [OF lt c'n nx] unfolding P_def by blast
    have run: "tb_run s1 s2 P st st'"
      using ns IH(1) unfolding st1_def by (rule tb_run.step)
    have sc: "0 < cand_score s1 s2 P c"
      using pos buf_exact(1) [OF bound less.prems(1) int] P_def by simp
    have alt: "c' = c - (length s1 + 1) - 1 \<or> c' = c - 1 \<or> c' = c - (length s1 + 1)"
      unfolding c'_def by (rule cand_next_cases [OF sc])
    have hm: "is_match r \<longleftrightarrow> s1 ! (c mod (length s1 + 1) - 1) = s2 ! (c div (length s1 + 1) - 1)"
      unfolding r_def by (rule step_rec_fill(3) [OF less.prems(1) int])
    have path: "path_from (length s1 + 1) c (r # rs)"
      using int IH(3) alt step_rec_fill(1,2) [OF less.prems(1) int, of st]
      unfolding r_def by auto
    have lastm: "is_match (last (r # rs))"
    proof (cases "rs = []")
      case True
      then have "c' = 0 \<or> P ! (c' * 2) \<le> 0" using IH(4) by simp
      then have "s1 ! (c mod (length s1 + 1) - 1) = s2 ! (c div (length s1 + 1) - 1)"
        using stop_pred_match [OF bound less.prems(1)] pos unfolding P_def c'_def by blast
      then show ?thesis using True hm by simp
    next
      case False
      then show ?thesis using IH(5) by simp
    qed
    have "result st' = result st @ (r # rs)" using IH(2) res1 by simp
    then show ?thesis
      using run path lastm hm False unfolding P_def
      by (intro exI [of _ st'] exI [of _ "r # rs"]) simp
  qed
qed

lemma pred_coords:
  assumes "interior W c"
  shows "(c - W - 1) mod W = c mod W - 1" "(c - W - 1) div W = c div W - 1"
    "(c - 1) mod W = c mod W - 1" "(c - 1) div W = c div W"
    "(c - W) mod W = c mod W" "(c - W) div W = c div W - 1"
proof -
  have m: "1 \<le> c mod W" and q: "1 \<le> c div W"
    using assms by (simp_all add: interior_def Suc_leI)
  have W0: "0 < W" using q by (cases "W = 0") simp_all
  have x: "c mod W - 1 < W" "c mod W < W" using W0 by (simp_all add: less_imp_diff_less)
  note ix = interior_idx [OF assms]
  show "(c - W - 1) mod W = c mod W - 1"
    unfolding ix(1) [symmetric] using x(1) by simp
  show "(c - W - 1) div W = c div W - 1"
    unfolding ix(1) [symmetric] using x(1) W0 by simp
  show "(c - 1) mod W = c mod W - 1"
    unfolding ix(2) [symmetric] using x(1) by simp
  show "(c - 1) div W = c div W"
    unfolding ix(2) [symmetric] using x(1) W0 by simp
  show "(c - W) mod W = c mod W"
    unfolding ix(3) [symmetric] by simp
  show "(c - W) div W = c div W - 1"
    unfolding ix(3) [symmetric] using x(2) W0 by simp
qed

lemma path_from_tail:
  assumes "path_from W c (r # rs)"
  shows "\<exists>c'. path_from W c' rs \<and>
           (c' mod W = c mod W - 1 \<or> c' mod W = c mod W) \<and>
           (c' div W = c div W - 1 \<or> c' div W = c div W) \<and>
           (c' mod W \<noteq> c mod W \<or> c' div W \<noteq> c div W) \<and> c' < c"
proof -
  have int: "interior W c" using assms by simp
  have m: "1 \<le> c mod W" and q: "1 \<le> c div W"
    using int by (simp_all add: interior_def Suc_leI)
  note pc = pred_coords [OF int]
  have w: "W + 1 \<le> c" using interior_idx(4) [OF int] .
  have W0: "0 < W" using q by (cases "W = 0") simp_all
  have lt: "c - W - 1 < c" "c - 1 < c" "c - W < c" using w W0 by arith+
  consider "path_from W (c - W - 1) rs" | "path_from W (c - 1) rs" | "path_from W (c - W) rs"
    using assms by auto
  then show ?thesis
  proof cases
    case 1
    then show ?thesis using pc(1,2) m q lt(1) by (intro exI [of _ "c - W - 1"]) simp
  next
    case 2
    then show ?thesis using pc(3,4) m q lt(2) by (intro exI [of _ "c - 1"]) simp
  next
    case 3
    then show ?thesis using pc(5,6) m q lt(3) by (intro exI [of _ "c - W"]) simp
  qed
qed

lemma path_from_head:
  assumes "path_from W c (r # rs)"
  shows "iA r = int (c mod W) - 1" "iB r = int (c div W) - 1" "1 \<le> c mod W" "1 \<le> c div W"
  using assms by (simp_all add: interior_def Suc_leI)

lemma path_successively:
  "path_from W c rs \<Longrightarrow> successively (\<lambda>r r'. step_ok r' r) rs"
proof (induction rs arbitrary: c)
  case Nil
  show ?case by simp
next
  case (Cons r rs)
  obtain c' where c': "path_from W c' rs"
    "c' mod W = c mod W - 1 \<or> c' mod W = c mod W"
    "c' div W = c div W - 1 \<or> c' div W = c div W"
    "c' mod W \<noteq> c mod W \<or> c' div W \<noteq> c div W"
    using path_from_tail [OF Cons.prems] by blast
  note h = path_from_head [OF Cons.prems]
  show ?case
  proof (cases rs)
    case Nil
    then show ?thesis by simp
  next
    case (Cons r' rs')
    note h' = path_from_head [OF c'(1) [unfolded Cons]]
    define x y x' y' where "x = c mod W" and "y = c div W" and "x' = c' mod W" and "y' = c' div W"
    have e: "iA r = int x - 1" "iB r = int y - 1" "iA r' = int x' - 1" "iB r' = int y' - 1"
      "1 \<le> x" "1 \<le> y"
      using h h' by (simp_all add: x_def y_def x'_def y'_def)
    have f: "x' = x - 1 \<or> x' = x" "y' = y - 1 \<or> y' = y" "x' \<noteq> x \<or> y' \<noteq> y"
      using c'(2,3,4) by (simp_all add: x_def y_def x'_def y'_def)
    have "(iA r = iA r' \<or> iA r = iA r' + 1)" using e f(1) by arith
    moreover have "(iB r = iB r' \<or> iB r = iB r' + 1)" using e f(2) by arith
    moreover have "(iA r \<noteq> iA r' \<or> iB r \<noteq> iB r')" using e f(3) by arith
    ultimately have "step_ok r' r" unfolding step_ok_def by blast
    then show ?thesis using Cons.IH [OF c'(1)] Cons by simp
  qed
qed

lemma path_bounds:
  "path_from W c rs \<Longrightarrow> r \<in> set rs \<Longrightarrow>
   0 \<le> iA r \<and> iA r \<le> int (c mod W) - 1 \<and> 0 \<le> iB r \<and> iB r \<le> int (c div W) - 1"
proof (induction rs arbitrary: c)
  case Nil
  then show ?case by simp
next
  case (Cons a rs)
  note h = path_from_head [OF Cons.prems(1)]
  show ?case
  proof (cases "r = a")
    case True
    then show ?thesis using h by simp
  next
    case False
    then have in_rs: "r \<in> set rs" using Cons.prems(2) by simp
    obtain c' where c': "path_from W c' rs"
      "c' mod W = c mod W - 1 \<or> c' mod W = c mod W"
      "c' div W = c div W - 1 \<or> c' div W = c div W"
      using path_from_tail [OF Cons.prems(1)] by blast
    have "0 \<le> iA r \<and> iA r \<le> int (c' mod W) - 1 \<and> 0 \<le> iB r \<and> iB r \<le> int (c' div W) - 1"
      using Cons.IH [OF c'(1) in_rs] .
    moreover have "int (c' mod W) \<le> int (c mod W)" "int (c' div W) \<le> int (c div W)"
      using c'(2,3) by auto
    ultimately show ?thesis by linarith
  qed
qed

lemma path_length:
  "path_from W c rs \<Longrightarrow> rs \<noteq> [] \<Longrightarrow> Suc (length rs) \<le> c mod W + c div W"
proof (induction rs arbitrary: c)
  case Nil
  then show ?case by simp
next
  case (Cons a rs)
  note h = path_from_head [OF Cons.prems(1)]
  obtain c' where c': "path_from W c' rs"
    "c' mod W = c mod W - 1 \<or> c' mod W = c mod W"
    "c' div W = c div W - 1 \<or> c' div W = c div W"
    "c' mod W \<noteq> c mod W \<or> c' div W \<noteq> c div W"
    using path_from_tail [OF Cons.prems(1)] by blast
  show ?case
  proof (cases "rs = []")
    case True
    then show ?thesis using h by simp
  next
    case False
    have "Suc (length rs) \<le> c' mod W + c' div W" using Cons.IH [OF c'(1) False] .
    moreover have "c' mod W + c' div W < c mod W + c div W"
      using c'(2,3,4) h(3,4) by arith
    ultimately show ?thesis by simp
  qed
qed

lemma ncells_pos: "0 < ncells s1 s2"
  by (simp add: ncells_def)

lemma not_interior_0: "\<not> interior W 0"
  by (simp add: interior_def)

lemma tb_init_sel:
  "nxt (tb_init c) = Some (int c)" "result (tb_init c) = []"
  "prevA (tb_init c) = 0" "prevB (tb_init c) = 0" "gaps (tb_init c) = 0" "matches (tb_init c) = 0"
  by (simp_all add: tb_init_def)

lemma traceback_fill:
  assumes bound: "ncells s1 s2 \<le> 2 ^ 24"
  shows "\<exists>tb. traceback s1 s2 (permutations (fill s1 s2)) (tb_init (maxIndex (fill s1 s2))) = Some tb \<and>
           path_from (length s1 + 1) (maxIndex (fill s1 s2)) (result tb) \<and>
           (result tb = [] \<longleftrightarrow> maxScore (fill s1 s2) = 0) \<and>
           (result tb \<noteq> [] \<longrightarrow> is_match (hd (result tb)) \<and> is_match (last (result tb)))"
proof -
  define c where "c = maxIndex (fill s1 s2)"
  have cn: "c < ncells s1 s2"
  proof (cases "maxScore (fill s1 s2) = 0")
    case True
    then show ?thesis using max_zero_index [OF True] ncells_pos [of s1 s2] c_def by simp
  next
    case False
    then show ?thesis using max_cell_match(1) [OF bound False] c_def by simp
  qed
  obtain st' rs where r: "tb_run s1 s2 (permutations (fill s1 s2)) (tb_init c) st'"
    "result st' = result (tb_init c) @ rs"
    "path_from (length s1 + 1) c rs"
    "rs = [] \<longleftrightarrow> c = 0 \<or> permutations (fill s1 s2) ! (c * 2) \<le> 0"
    "rs \<noteq> [] \<longrightarrow> is_match (last rs)"
    "rs \<noteq> [] \<longrightarrow>
          (is_match (hd rs) \<longleftrightarrow>
             s1 ! (c mod (length s1 + 1) - 1) = s2 ! (c div (length s1 + 1) - 1))"
    using tb_good [OF bound cn tb_init_sel(1)] by blast
  have res: "result st' = rs" using r(2) by (simp add: tb_init_sel)
  have e: "rs = [] \<longleftrightarrow> maxScore (fill s1 s2) = 0"
  proof (cases "maxScore (fill s1 s2) = 0")
    case True
    then show ?thesis using r(4) max_zero_index [OF True] c_def by simp
  next
    case False
    note m = max_cell_match [OF bound False]
    have "c \<noteq> 0" using m(2) not_interior_0 c_def by metis
    moreover have "0 < permutations (fill s1 s2) ! (c * 2)" using m(3,4) c_def by simp
    ultimately show ?thesis using r(4) False by simp
  qed
  have h: "rs \<noteq> [] \<longrightarrow> is_match (hd rs)"
  proof
    assume ne: "rs \<noteq> []"
    then have nz: "maxScore (fill s1 s2) \<noteq> 0" using e by simp
    show "is_match (hd rs)" using r(6) ne max_cell_match(5) [OF bound nz] c_def by simp
  qed
  have "traceback s1 s2 (permutations (fill s1 s2)) (tb_init c) = Some st'"
    using r(1) by (rule tb_run_traceback)
  then show ?thesis
    using r(3,5) e h res unfolding c_def by (intro exI [of _ st']) simp
qed

lemma analize_unfold:
  assumes "traceback (sequence q1) (sequence q2) (permutations (fill (sequence q1) (sequence q2)))
             (tb_init (maxIndex (fill (sequence q1) (sequence q2)))) = Some tb"
  shows "analize q1 q2 =
     Some (if result tb = [] then Inl TypeError
           else Inr (rev (result tb),
             \<lparr> stat_permutations = (length (sequence q1) + 1) * (length (sequence q2) + 1),
               alignmentLength = length (result tb),
               alignmentMatchPercent = of_nat (matches tb) / of_nat (length (result tb)),
               sequence1 = \<lparr> seq_name = name q1, seq_length = length (sequence q1),
                             seq_start = iA (last (result tb)), seq_end = iA (hd (result tb)) \<rparr>,
               sequence2 = \<lparr> seq_name = name q2, seq_length = length (sequence q2),
                             seq_start = iB (last (result tb)), seq_end = iB (hd (result tb)) \<rparr> \<rparr>))"
  unfolding analize_def Let_def mk_stats_def using assms
  by (cases "result tb") simp_all

lemma cell_index_props:
  assumes "x \<le> length s1" and "y \<le> length s2"
  shows "cell_index s1 x y < ncells s1 s2"
    and "cell_index s1 x y mod (length s1 + 1) = x"
    and "cell_index s1 x y div (length s1 + 1) = y"
proof -
  have "x + y * (length s1 + 1) < (length s1 + 1) + y * (length s1 + 1)" using assms(1) by simp
  also have "\<dots> = (y + 1) * (length s1 + 1)" by simp
  also have "\<dots> \<le> (length s2 + 1) * (length s1 + 1)"
    using assms(2) by (intro mult_le_mono1) simp
  finally show "cell_index s1 x y < ncells s1 s2"
    by (simp add: cell_index_def ncells_def mult.commute)
  have "(x + y * (length s1 + 1)) mod (length s1 + 1) = x mod (length s1 + 1)"
    by (rule mod_mult_self1)
  then show "cell_index s1 x y mod (length s1 + 1) = x"
    unfolding cell_index_def using assms(1) by simp
  have "(x + y * (length s1 + 1)) div (length s1 + 1) = y + x div (length s1 + 1)"
    by (rule div_mult_self1) simp
  then show "cell_index s1 x y div (length s1 + 1) = y"
    unfolding cell_index_def using assms(1) by simp
qed

lemma cell_index_interior:
  assumes "x \<le> length s1" and "y \<le> length (s2 :: string)"
  shows "interior (length s1 + 1) (cell_index s1 x y) \<longleftrightarrow> x \<noteq> 0 \<and> y \<noteq> 0"
  unfolding interior_def by (simp only: cell_index_props(2,3) [OF assms])

lemma cell_index_pred:
  assumes "1 \<le> x" and "1 \<le> y"
  shows "cell_index s1 x y - (length s1 + 1) - 1 = cell_index s1 (x - 1) (y - 1)"
    and "cell_index s1 x y - 1 = cell_index s1 (x - 1) y"
    and "cell_index s1 x y - (length s1 + 1) = cell_index s1 x (y - 1)"
    and "cell_index s1 x (y - 1) - 1 = cell_index s1 (x - 1) (y - 1)"
proof -
  obtain x' y' where e: "x = Suc x'" "y = Suc y'"
    using assms by (cases x; cases y) simp_all
  show "cell_index s1 x y - (length s1 + 1) - 1 = cell_index s1 (x - 1) (y - 1)"
    unfolding e cell_index_def by simp
  show "cell_index s1 x y - 1 = cell_index s1 (x - 1) y"
    unfolding e cell_index_def by simp
  show "cell_index s1 x y - (length s1 + 1) = cell_index s1 x (y - 1)"
    unfolding e cell_index_def by simp
  show "cell_index s1 x (y - 1) - 1 = cell_index s1 (x - 1) (y - 1)"
    unfolding e cell_index_def by simp
qed

lemma cand_at_cell:
  assumes "1 \<le> x" "x \<le> length s1" "1 \<le> y" "y \<le> length s2"
  shows "cand_score s1 s2 (permutations (fill s1 s2)) (cell_index s1 x y) =
           max (max (max (score_at s1 s2 (x - 1) (y - 1)
                            + (if s1 ! (x - 1) = s2 ! (y - 1) then 1 else - 1))
                         (score_at s1 s2 (x - 1) y - 1))
                    (score_at s1 s2 x (y - 1) - 1)) 0"
    and "cand_next s1 s2 (permutations (fill s1 s2)) (cell_index s1 x y) =
          (if score_at s1 s2 (x - 1) (y - 1) + (if s1 ! (x - 1) = s2 ! (y - 1) then 1 else - 1)
                = cand_score s1 s2 (permutations (fill s1 s2)) (cell_index s1 x y)
           then cell_index s1 (x - 1) (y - 1)
           else if cand_score s1 s2 (permutations (fill s1 s2)) (cell_index s1 x y)
                = score_at s1 s2 (x - 1) y - 1
           then cell_index s1 (x - 1) y
           else if cand_score s1 s2 (permutations (fill s1 s2)) (cell_index s1 x y)
                = score_at s1 s2 x (y - 1) - 1
           then cell_index s1 x (y - 1)
           else 0)"
proof -
  note p = cell_index_props(2,3) [OF assms(2,4)]
  note q = cell_index_pred [OF assms(1,3), of s1]
  show "cand_score s1 s2 (permutations (fill s1 s2)) (cell_index s1 x y) =
           max (max (max (score_at s1 s2 (x - 1) (y - 1)
                            + (if s1 ! (x - 1) = s2 ! (y - 1) then 1 else - 1))
                         (score_at s1 s2 (x - 1) y - 1))
                    (score_at s1 s2 x (y - 1) - 1)) 0"
    unfolding cand_score_def Let_def score_at_def by (simp only: p q)
  show "cand_next s1 s2 (permutations (fill s1 s2)) (cell_index s1 x y) =
          (if score_at s1 s2 (x - 1) (y - 1) + (if s1 ! (x - 1) = s2 ! (y - 1) then 1 else - 1)
                = cand_score s1 s2 (permutations (fill s1 s2)) (cell_index s1 x y)
           then cell_index s1 (x - 1) (y - 1)
           else if cand_score s1 s2 (permutations (fill s1 s2)) (cell_index s1 x y)
                = score_at s1 s2 (x - 1) y - 1
           then cell_index s1 (x - 1) y
           else if cand_score s1 s2 (permutations (fill s1 s2)) (cell_index s1 x y)
                = score_at s1 s2 x (y - 1) - 1
           then cell_index s1 x (y - 1)
           else 0)"
    unfolding cand_next_def Let_def score_at_def by (simp only: p q)
qed

lemma analize_Inr:
  assumes "analize q1 q2 = Some (Inr (al, stats))"
  shows "\<exists>tb. traceback (sequence q1) (sequence q2) (permutations (fill (sequence q1) (sequence q2)))
             (tb_init (maxIndex (fill (sequence q1) (sequence q2)))) = Some tb \<and>
           result tb \<noteq> [] \<and> al = rev (result tb) \<and>
           alignmentLength stats = length (result tb) \<and>
           alignmentMatchPercent stats = of_nat (matches tb) / of_nat (length (result tb)) \<and>
           seq_start (sequence1 stats) = iA (last (result tb)) \<and>
           seq_end (sequence1 stats) = iA (hd (result tb)) \<and>
           seq_start (sequence2 stats) = iB (last (result tb)) \<and>
           seq_end (sequence2 stats) = iB (hd (result tb))"
proof (cases "traceback (sequence q1) (sequence q2) (permutations (fill (sequence q1) (sequence q2)))
             (tb_init (maxIndex (fill (sequence q1) (sequence q2))))")
  case None
  then show ?thesis using assms by (simp add: analize_def Let_def)
next
  case (Some tb)
  show ?thesis
    using assms unfolding analize_unfold [OF Some]
    by (intro exI [of _ tb]) (auto simp add: Some split: if_splits)
qed

lemma analize_total:
  assumes "ncells (sequence q1) (sequence q2) \<le> 2 ^ 24"
  shows "analize q1 q2 \<noteq> None"
proof -
  obtain tb where "traceback (sequence q1) (sequence q2) (permutations (fill (sequence q1) (sequence q2)))
             (tb_init (maxIndex (fill (sequence q1) (sequence q2)))) = Some tb"
    using traceback_fill [OF assms] by blast
  then show ?thesis by (simp add: analize_unfold)
qed

lemma analize_path:
  assumes bound: "ncells (sequence q1) (sequence q2) \<le> 2 ^ 24"
    and an: "analize q1 q2 = Some (Inr (al, stats))"
  shows "\<exists>rs. al = rev rs \<and> rs \<noteq> [] \<and>
           path_from (length (sequence q1) + 1) (maxIndex (fill (sequence q1) (sequence q2))) rs \<and>
           maxIndex (fill (sequence q1) (sequence q2)) < ncells (sequence q1) (sequence q2) \<and>
           is_match (hd rs) \<and> is_match (last rs)"
proof -
  obtain tb where tb: "traceback (sequence q1) (sequence q2) (permutations (fill (sequence q1) (sequence q2)))
             (tb_init (maxIndex (fill (sequence q1) (sequence q2)))) = Some tb"
    "result tb \<noteq> []" "al = rev (result tb)"
    using analize_Inr [OF an] by blast
  obtain tb' where tb': "traceback (sequence q1) (sequence q2) (permutations (fill (sequence q1) (sequence q2)))
             (tb_init (maxIndex (fill (sequence q1) (sequence q2)))) = Some tb'"
    "path_from (length (sequence q1) + 1) (maxIndex (fill (sequence q1) (sequence q2))) (result tb')"
    "result tb' = [] \<longleftrightarrow> maxScore (fill (sequence q1) (sequence q2)) = 0"
    "result tb' \<noteq> [] \<longrightarrow> is_match (hd (result tb')) \<and> is_match (last (result tb'))"
    using traceback_fill [OF bound] by blast
  have e: "tb' = tb" using tb(1) tb'(1) by simp
  have nz: "maxScore (fill (sequence q1) (sequence q2)) \<noteq> 0" using tb'(3) tb(2) e by simp
  show ?thesis
    using tb(2,3) tb'(2,4) max_cell_match(1) [OF bound nz] unfolding e
    by (intro exI [of _ "result tb"]) simp
qed

lemma path_last_least:
  "path_from W c rs \<Longrightarrow> r \<in> set rs \<Longrightarrow> iA (last rs) \<le> iA r \<and> iB (last rs) \<le> iB r"
proof (induction rs arbitrary: c)
  case Nil
  then show ?case by simp
next
  case (Cons a rs)
  show ?case
  proof (cases "rs = []")
    case True
    then show ?thesis using Cons.prems(2) by simp
  next
    case False
    obtain c' where c': "path_from W c' rs"
      "c' mod W = c mod W - 1 \<or> c' mod W = c mod W"
      "c' div W = c div W - 1 \<or> c' div W = c div W"
      using path_from_tail [OF Cons.prems(1)] by blast
    note h = path_from_head [OF Cons.prems(1)]
    have l: "last (a # rs) = last rs" using False by simp
    show ?thesis
    proof (cases "r \<in> set rs")
      case True
      then show ?thesis using Cons.IH [OF c'(1) True] l by simp
    next
      case notin: False
      then have ra: "r = a" using Cons.prems(2) by simp
      have "last rs \<in> set rs" using False by simp
      then have "iA (last rs) \<le> int (c' mod W) - 1 \<and> iB (last rs) \<le> int (c' div W) - 1"
        using path_bounds [OF c'(1)] by blast
      moreover have "int (c' mod W) \<le> int (c mod W)" "int (c' div W) \<le> int (c div W)"
        using c'(2,3) by auto
      ultimately show ?thesis using h(1,2) ra l by simp
    qed
  qed
qed

lemma path_hd_greatest:
  assumes "path_from W c rs" and "r \<in> set rs"
  shows "iA r \<le> iA (hd rs) \<and> iB r \<le> iB (hd rs)"
proof (cases rs)
  case Nil
  then show ?thesis using assms(2) by simp
next
  case (Cons a rs')
  note h = path_from_head [OF assms(1) [unfolded Cons]]
  show ?thesis using path_bounds [OF assms] h(1,2) Cons by simp
qed

lemma fill_upto_boundary:
  assumes "\<And>i. i < k \<Longrightarrow> \<not> interior (length s1 + 1) i"
  shows "fill_upto s1 s2 k = fill_upto s1 s2 0"
  using assms
proof (induction k)
  case 0
  show ?case by simp
next
  case (Suc k)
  have "fill_upto s1 s2 k = fill_upto s1 s2 0" using Suc.prems by (intro Suc.IH) simp
  moreover have "\<not> interior (length s1 + 1) k" using Suc.prems by simp
  ultimately show ?case by (simp add: fill_upto_Suc cell_step_boundary)
qed

lemma fill_degenerate:
  assumes "s1 = [] \<or> s2 = []"
  shows "fill s1 s2 =
     \<lparr> permutations = replicate ((length s1 + 1) * (length s2 + 1) * 2) 0,
       maxScore = 0, maxIndex = 0 \<rparr>"
proof -
  have "\<not> interior (length s1 + 1) i" if "i < ncells s1 s2" for i
  proof (cases "s1 = []")
    case True
    then show ?thesis by (simp add: interior_def)
  next
    case False
    then have "s2 = []" using assms by simp
    then have "i < length s1 + 1" using that by (simp add: ncells_def)
    then show ?thesis by (simp add: interior_def)
  qed
  then have "fill_upto s1 s2 (ncells s1 s2) = fill_upto s1 s2 0" by (rule fill_upto_boundary)
  then show ?thesis by (simp add: fill_eq_upto fill_upto_0 ncells_def)
qed

lemma score_at_interior:
  assumes "1 \<le> x" "x \<le> length s1" "1 \<le> y" "y \<le> length s2"
  shows "score_at s1 s2 x y =
           f32 (max (max (max (score_at s1 s2 (x - 1) (y - 1)
                            + (if s1 ! (x - 1) = s2 ! (y - 1) then 1 else - 1))
                         (score_at s1 s2 (x - 1) y - 1))
                    (score_at s1 s2 x (y - 1) - 1)) 0)"
proof -
  have c: "cell_index s1 x y < ncells s1 s2" by (rule cell_index_props(1) [OF assms(2,4)])
  have i: "interior (length s1 + 1) (cell_index s1 x y)"
    using cell_index_interior [OF assms(2,4)] assms(1,3) by simp
  show ?thesis
    unfolding score_at_def [of s1 s2 x y] buf_interior(1) [OF c i] cand_at_cell(1) [OF assms] ..
qed

lemma score_at_boundary:
  assumes "x \<le> length s1" "y \<le> length s2" "x = 0 \<or> y = 0"
  shows "score_at s1 s2 x y = 0"
proof -
  have c: "cell_index s1 x y < ncells s1 s2" by (rule cell_index_props(1) [OF assms(1,2)])
  have i: "\<not> interior (length s1 + 1) (cell_index s1 x y)"
    using cell_index_interior [OF assms(1,2)] assms(3) by blast
  show ?thesis unfolding score_at_def using buf_boundary(1) [OF c i] .
qed

lemma score_transpose:
  "x \<le> length s1 \<Longrightarrow> y \<le> length s2 \<Longrightarrow> score_at s2 s1 y x = score_at s1 s2 x y"
proof (induction "x + y" arbitrary: x y rule: less_induct)
  case less
  show ?case
  proof (cases "x = 0 \<or> y = 0")
    case True
    then have "y = 0 \<or> x = 0" by blast
    then show ?thesis
      using score_at_boundary [OF less.prems True] score_at_boundary [OF less.prems(2,1)] by simp
  next
    case False
    then have p: "1 \<le> x" "1 \<le> y" by simp_all
    have d: "score_at s2 s1 (y - 1) (x - 1) = score_at s1 s2 (x - 1) (y - 1)"
      using p less.prems by (intro less.hyps) simp_all
    have l: "score_at s2 s1 y (x - 1) = score_at s1 s2 (x - 1) y"
      using p less.prems by (intro less.hyps) simp_all
    have t: "score_at s2 s1 (y - 1) x = score_at s1 s2 x (y - 1)"
      using p less.prems by (intro less.hyps) simp_all
    have e: "(s2 ! (y - 1) = s1 ! (x - 1)) = (s1 ! (x - 1) = s2 ! (y - 1))" by (rule eq_commute)
    have m: "max (max a b) c = max (max a c) b" for a b c :: int by simp
    show ?thesis
      unfolding score_at_interior [OF p(1) less.prems(1) p(2) less.prems(2)]
        score_at_interior [OF p(2) less.prems(2) p(1) less.prems(1)] d l t e
      by (simp only: m)
  qed
qed

lemma interior_cell:
  assumes "c < ncells s1 s2" and "interior (length s1 + 1) c"
  shows "\<exists>x y. c = cell_index s1 x y \<and> 1 \<le> x \<and> x \<le> length s1 \<and> 1 \<le> y \<and> y \<le> length s2"
proof -
  note cc = cell_coords [OF assms]
  have "c = cell_index s1 (c mod (length s1 + 1)) (c div (length s1 + 1))"
    unfolding cell_index_def by (rule mod_div_mult_eq [symmetric])
  moreover have "c mod (length s1 + 1) \<le> length s1" "c div (length s1 + 1) \<le> length s2"
    using cc by arith+
  ultimately show ?thesis using cc(1,3) by blast
qed

lemma max_score_le_transposed:
  "maxScore (fill s1 s2) \<le> maxScore (fill s2 s1)"
proof (cases "maxScore (fill s1 s2) = 0")
  case True
  then show ?thesis using max_inv_fill [of s2 s1] by (simp add: max_inv_def)
next
  case False
  define c where "c = maxIndex (fill s1 s2)"
  have c: "c < ncells s1 s2" "interior (length s1 + 1) c"
    "cand_score s1 s2 (permutations (fill s1 s2)) c = maxScore (fill s1 s2)"
    using max_inv_fill [of s1 s2] False unfolding max_inv_def c_def by simp_all
  obtain x y where xy: "c = cell_index s1 x y" "1 \<le> x" "x \<le> length s1" "1 \<le> y" "y \<le> length s2"
    using interior_cell [OF c(1,2)] by blast
  have d: "score_at s2 s1 (y - 1) (x - 1) = score_at s1 s2 (x - 1) (y - 1)"
    using xy by (intro score_transpose) simp_all
  have l: "score_at s2 s1 y (x - 1) = score_at s1 s2 (x - 1) y"
    using xy by (intro score_transpose) simp_all
  have t: "score_at s2 s1 (y - 1) x = score_at s1 s2 x (y - 1)"
    using xy by (intro score_transpose) simp_all
  have e: "(s2 ! (y - 1) = s1 ! (x - 1)) = (s1 ! (x - 1) = s2 ! (y - 1))" by (rule eq_commute)
  have m: "max (max a b) c = max (max a c) b" for a b c :: int by simp
  have "cand_score s2 s1 (permutations (fill s2 s1)) (cell_index s2 y x)
          = cand_score s1 s2 (permutations (fill s1 s2)) (cell_index s1 x y)"
    unfolding cand_at_cell(1) [OF xy(2-5)] cand_at_cell(1) [OF xy(4,5,2,3)] d l t e
    by (simp only: m)
  moreover have "cand_score s2 s1 (permutations (fill s2 s1)) (cell_index s2 y x) \<le> maxScore (fill s2 s1)"
  proof -
    have "cell_index s2 y x < ncells s2 s1" by (rule cell_index_props(1) [OF xy(5,3)])
    moreover have "interior (length s2 + 1) (cell_index s2 y x)"
      using cell_index_interior [OF xy(5,3)] xy(2,4) by simp
    ultimately show ?thesis using max_inv_fill [of s2 s1] unfolding max_inv_def by blast
  qed
  ultimately show ?thesis using c(3) xy(1) by simp
qed

section \<open>The claims\<close>

subsection \<open>Claim C1: start and end of the statistics\<close>

text \<open>
  C1. The claim says that \<open>end\<close> is the index of the first record of the head-to-tail
  alignment (the smallest index touched) and \<open>start\<close> that of the last record (the
  largest). The statistics are computed before \<open>result.reverse()\<close>, from the list in
  emission order, so it is the other way round: \<open>end = result[0]\<close> is the maximal
  cell, the last record of the alignment, and \<open>start = result.at(-1)\<close> is its first
  record. For \<open>AC\<close> against itself the alignment is \<open>(0,0), (1,1)\<close>, with
  \<open>start = 0\<close> and \<open>end = 1\<close>.
\<close>

theorem stats_end_is_not_first_record:
  "\<exists>al stats.
     analize \<lparr>name = ''>a'', sequence = ''AC''\<rparr> \<lparr>name = ''>b'', sequence = ''AC''\<rparr>
       = Some (Inr (al, stats)) \<and>
     iA (hd al) = 0 \<and> iA (last al) = 1 \<and>
     seq_end (sequence1 stats) = 1 \<and> seq_start (sequence1 stats) = 0 \<and>
     seq_end (sequence1 stats) \<noteq> iA (hd al) \<and> seq_start (sequence1 stats) \<noteq> iA (last al)"
proof -
  have "analize \<lparr>name = ''>a'', sequence = ''AC''\<rparr> \<lparr>name = ''>b'', sequence = ''AC''\<rparr> =
    Some (Inr ([\<lparr>iA = 0, iB = 0, res = GOOD_MATCH\<rparr>, \<lparr>iA = 1, iB = 1, res = GOOD_MATCH\<rparr>],
      \<lparr>stat_permutations = 9, alignmentLength = 2, alignmentMatchPercent = 1,
         sequence1 = \<lparr>seq_name = ''>a'', seq_length = 2, seq_start = 0, seq_end = 1\<rparr>,
         sequence2 = \<lparr>seq_name = ''>b'', seq_length = 2, seq_start = 0, seq_end = 1\<rparr>\<rparr>))"
    by code_simp
  then show ?thesis by simp
qed

text \<open>
  C1, as amended. Whenever \<open>analize\<close> returns statistics, \<open>start\<close> is the index of
  the first record of the head-to-tail alignment and \<open>end\<close> that of its last record,
  in both sequences; and on a grid of at most \<open>2 ^ 24\<close> cells \<open>start\<close> is the
  smallest and \<open>end\<close> the largest index the alignment touches.
\<close>

theorem stats_start_end:
  assumes an: "analize q1 q2 = Some (Inr (al, stats))"
  shows "seq_start (sequence1 stats) = iA (hd al) \<and> seq_end (sequence1 stats) = iA (last al) \<and>
         seq_start (sequence2 stats) = iB (hd al) \<and> seq_end (sequence2 stats) = iB (last al) \<and>
         ((length (sequence q1) + 1) * (length (sequence q2) + 1) \<le> 2 ^ 24 \<longrightarrow>
            (\<forall>r \<in> set al. iA (hd al) \<le> iA r \<and> iA r \<le> iA (last al) \<and>
                            iB (hd al) \<le> iB r \<and> iB r \<le> iB (last al)))"
proof -
  obtain tb :: tb_state where tb: "result tb \<noteq> []" "al = rev (result tb)"
    "seq_start (sequence1 stats) = iA (last (result tb))"
    "seq_end (sequence1 stats) = iA (hd (result tb))"
    "seq_start (sequence2 stats) = iB (last (result tb))"
    "seq_end (sequence2 stats) = iB (hd (result tb))"
    using analize_Inr [OF an] by blast
  have a: "seq_start (sequence1 stats) = iA (hd al) \<and> seq_end (sequence1 stats) = iA (last al) \<and>
         seq_start (sequence2 stats) = iB (hd al) \<and> seq_end (sequence2 stats) = iB (last al)"
    using tb by (simp add: hd_rev last_rev)
  have "\<forall>r \<in> set al. iA (hd al) \<le> iA r \<and> iA r \<le> iA (last al) \<and>
                      iB (hd al) \<le> iB r \<and> iB r \<le> iB (last al)"
    if small: "(length (sequence q1) + 1) * (length (sequence q2) + 1) \<le> 2 ^ 24"
  proof -
    have bound: "ncells (sequence q1) (sequence q2) \<le> 2 ^ 24" using small by (simp add: ncells_def)
    obtain rs where rs: "al = rev rs" "rs \<noteq> []"
      "path_from (length (sequence q1) + 1) (maxIndex (fill (sequence q1) (sequence q2))) rs"
      using analize_path [OF bound an] by blast
    show ?thesis
      unfolding rs(1) using path_last_least [OF rs(3)] path_hd_greatest [OF rs(3)] rs(2)
      by (simp add: hd_rev last_rev)
  qed
  then show ?thesis using a by blast
qed

theorem stats_start_end_witness:
  "\<exists>al stats. analize \<lparr>name = ''>a'', sequence = ''AAAA''\<rparr> \<lparr>name = ''>b'', sequence = ''AACAAA''\<rparr> = Some (Inr (al, stats)) \<and>
     seq_start (sequence1 stats) = iA (hd al) \<and> seq_end (sequence1 stats) = iA (last al) \<and>
     seq_start (sequence2 stats) = iB (hd al) \<and> seq_end (sequence2 stats) = iB (last al) \<and>
     (length ''AAAA'' + 1) * (length ''AACAAA'' + 1) \<le> (2::nat) ^ 24 \<and>
     list_all (\<lambda>r. iA (hd al) \<le> iA r \<and> iA r \<le> iA (last al) \<and>
                      iB (hd al) \<le> iB r \<and> iB r \<le> iB (last al)) al"
proof -
  have b: "(length (sequence \<lparr>name = ''>a'', sequence = ''AAAA''\<rparr>) + 1) * (length (sequence \<lparr>name = ''>b'', sequence = ''AACAAA''\<rparr>) + 1) \<le> 2 ^ 24"
    by simp
  have e: "analize \<lparr>name = ''>a'', sequence = ''AAAA''\<rparr> \<lparr>name = ''>b'', sequence = ''AACAAA''\<rparr> =
    Some (Inr ([\<lparr>iA = 0, iB = 0, res = GOOD_MATCH\<rparr>, \<lparr>iA = 1, iB = 1, res = GOOD_MATCH\<rparr>,
      \<lparr>iA = 1, iB = 2, res = NO_MATCH\<rparr>, \<lparr>iA = 2, iB = 3, res = GOOD_MATCH\<rparr>,
      \<lparr>iA = 3, iB = 4, res = GOOD_MATCH\<rparr>],
      \<lparr>stat_permutations = 35, alignmentLength = 5, alignmentMatchPercent = 4 / 5,
       sequence1 = \<lparr>seq_name = ''>a'', seq_length = 4, seq_start = 0, seq_end = 3\<rparr>,
       sequence2 = \<lparr>seq_name = ''>b'', seq_length = 6, seq_start = 0, seq_end = 4\<rparr>\<rparr>))"
    by code_simp
  have s: "(length ''AAAA'' + 1) * (length ''AACAAA'' + 1) \<le> (2::nat) ^ 24" by simp
  show ?thesis
    using stats_start_end [OF e] b s e unfolding list_all_iff by blast
qed

subsection \<open>Claim C2: no positive score\<close>

text \<open>
  C2. The claim asks that a pair whose maximal score is 0 (such as \<open>AAAA\<close> against
  \<open>TTTT\<close>) yields an empty alignment with explicit sentinel statistics. The program
  does not: with maximal score 0 the maximal index stays 0, the traceback emits nothing,
  and the statistics read \<open>result[0].iA\<close> of the empty list, so \<open>analize\<close> throws
  a TypeError (after computing the match percentage as 0 / 0).
\<close>

theorem no_alignment_throws:
  assumes "maxScore (fill (sequence q1) (sequence q2)) = 0"
  shows "analize q1 q2 = Some (Inl TypeError)"
proof -
  have z: "maxIndex (fill (sequence q1) (sequence q2)) = 0" by (rule max_zero_index [OF assms])
  have "tb_stop (permutations (fill (sequence q1) (sequence q2))) (nxt (tb_init 0))"
    by (simp add: tb_stop_def tb_init_def)
  then have "traceback (sequence q1) (sequence q2) (permutations (fill (sequence q1) (sequence q2)))
             (tb_init (maxIndex (fill (sequence q1) (sequence q2)))) = Some (tb_init 0)"
    unfolding z by (subst traceback.simps) simp
  then show ?thesis by (simp add: analize_unfold tb_init_sel)
qed

theorem no_alignment_throws_witness:
  "maxScore (fill ''AAAA'' ''TTTT'') = 0 \<and>
   analize \<lparr>name = ''>a'', sequence = ''AAAA''\<rparr> \<lparr>name = ''>b'', sequence = ''TTTT''\<rparr>
     = Some (Inl TypeError)"
proof -
  have m: "maxScore (fill ''AAAA'' ''TTTT'') = 0" by code_simp
  then have "maxScore (fill (sequence \<lparr>name = ''>a'', sequence = ''AAAA''\<rparr>)
                            (sequence \<lparr>name = ''>b'', sequence = ''TTTT''\<rparr>)) = 0" by simp
  then show ?thesis using m by (simp only: no_alignment_throws)
qed

subsection \<open>Claim C3: the textbook pair\<close>

text \<open>
  C3. The claim says that for \<open>ACACACTA\<close> against \<open>AGCACACA\<close>, with match reward 1,
  mismatch penalty -1 and gap penalty 1, the maximal score is 6 and the alignment has 7
  records. With these penalties the program finds the maximal score 5 and an alignment
  of 5 records (the common run \<open>CACAC\<close>).
\<close>

theorem textbook_pair_not_6_and_7:
  "maxScore (fill ''ACACACTA'' ''AGCACACA'') \<noteq> 6 \<and>
   (\<exists>al stats. analize \<lparr>name = ''>a'', sequence = ''ACACACTA''\<rparr>
                         \<lparr>name = ''>b'', sequence = ''AGCACACA''\<rparr> = Some (Inr (al, stats)) \<and>
                length al \<noteq> 7)"
proof -
  have "maxScore (fill ''ACACACTA'' ''AGCACACA'') = 5" by code_simp
  moreover have "analize \<lparr>name = ''>a'', sequence = ''ACACACTA''\<rparr>
                         \<lparr>name = ''>b'', sequence = ''AGCACACA''\<rparr> =
    Some (Inr ([\<lparr>iA = 1, iB = 2, res = GOOD_MATCH\<rparr>, \<lparr>iA = 2, iB = 3, res = GOOD_MATCH\<rparr>,
                \<lparr>iA = 3, iB = 4, res = GOOD_MATCH\<rparr>, \<lparr>iA = 4, iB = 5, res = GOOD_MATCH\<rparr>,
                \<lparr>iA = 5, iB = 6, res = GOOD_MATCH\<rparr>],
      \<lparr>stat_permutations = 81, alignmentLength = 5, alignmentMatchPercent = 1,
         sequence1 = \<lparr>seq_name = ''>a'', seq_length = 8, seq_start = 1, seq_end = 5\<rparr>,
         sequence2 = \<lparr>seq_name = ''>b'', seq_length = 8, seq_start = 2, seq_end = 6\<rparr>\<rparr>))"
    by code_simp
  ultimately show ?thesis by simp
qed

theorem textbook_pair_5_and_5:
  "maxScore (fill ''ACACACTA'' ''AGCACACA'') = 5 \<and>
   (\<exists>al stats. analize \<lparr>name = ''>a'', sequence = ''ACACACTA''\<rparr>
                         \<lparr>name = ''>b'', sequence = ''AGCACACA''\<rparr> = Some (Inr (al, stats)) \<and>
                length al = 5 \<and> alignmentLength stats = 5)"
proof -
  have "maxScore (fill ''ACACACTA'' ''AGCACACA'') = 5" by code_simp
  moreover have "analize \<lparr>name = ''>a'', sequence = ''ACACACTA''\<rparr>
                         \<lparr>name = ''>b'', sequence = ''AGCACACA''\<rparr> =
    Some (Inr ([\<lparr>iA = 1, iB = 2, res = GOOD_MATCH\<rparr>, \<lparr>iA = 2, iB = 3, res = GOOD_MATCH\<rparr>,
                \<lparr>iA = 3, iB = 4, res = GOOD_MATCH\<rparr>, \<lparr>iA = 4, iB = 5, res = GOOD_MATCH\<rparr>,
                \<lparr>iA = 5, iB = 6, res = GOOD_MATCH\<rparr>],
      \<lparr>stat_permutations = 81, alignmentLength = 5, alignmentMatchPercent = 1,
         sequence1 = \<lparr>seq_name = ''>a'', seq_length = 8, seq_start = 1, seq_end = 5\<rparr>,
         sequence2 = \<lparr>seq_name = ''>b'', seq_length = 8, seq_start = 2, seq_end = 6\<rparr>\<rparr>))"
    by code_simp
  ultimately show ?thesis by simp
qed

subsection \<open>Claim C4: the recurrence and the order of the comparisons\<close>

text \<open>
  C4. On a grid of at most \<open>2 ^ 24\<close> cells, every interior cell \<open>(x, y)\<close> holds the
  score \<open>max(diagonal, left, top, 0)\<close>, where the diagonal candidate adds 1 on equal
  residues and -1 otherwise and the left and top candidates subtract 1; and its next
  index is the diagonal cell if the score equals the diagonal candidate, else the left
  cell if it equals the left candidate, else the top cell if it equals the top candidate,
  else 0.
\<close>

theorem matrix_recurrence:
  assumes bound: "(length s1 + 1) * (length s2 + 1) \<le> 2 ^ 24"
    and "1 \<le> x" "x \<le> length s1" "1 \<le> y" "y \<le> length s2"
  shows "score_at s1 s2 x y =
           max (max (max (score_at s1 s2 (x - 1) (y - 1)
                            + (if s1 ! (x - 1) = s2 ! (y - 1) then 1 else - 1))
                         (score_at s1 s2 (x - 1) y - 1))
                    (score_at s1 s2 x (y - 1) - 1)) 0 \<and>
         next_at s1 s2 x y =
          (if score_at s1 s2 x y
                = score_at s1 s2 (x - 1) (y - 1) + (if s1 ! (x - 1) = s2 ! (y - 1) then 1 else - 1)
           then int (cell_index s1 (x - 1) (y - 1))
           else if score_at s1 s2 x y = score_at s1 s2 (x - 1) y - 1
           then int (cell_index s1 (x - 1) y)
           else if score_at s1 s2 x y = score_at s1 s2 x (y - 1) - 1
           then int (cell_index s1 x (y - 1))
           else 0)"
proof -
  have b: "ncells s1 s2 \<le> 2 ^ 24" using bound by (simp add: ncells_def)
  have c: "cell_index s1 x y < ncells s1 s2" by (rule cell_index_props(1) [OF assms(3,5)])
  have i: "interior (length s1 + 1) (cell_index s1 x y)"
    using cell_index_interior [OF assms(3,5)] assms(2,4) by simp
  note ex = buf_exact [OF b c i]
  note ca = cand_at_cell [OF assms(2-5)]
  have s: "score_at s1 s2 x y = cand_score s1 s2 (permutations (fill s1 s2)) (cell_index s1 x y)"
    unfolding score_at_def using ex(1) .
  have n: "next_at s1 s2 x y = int (cand_next s1 s2 (permutations (fill s1 s2)) (cell_index s1 x y))"
    unfolding next_at_def using ex(2) .
  show ?thesis
    unfolding n unfolding s ca(2) unfolding ca(1) by (simp only: eq_commute if_distrib [of int] of_nat_0 split: if_split)
qed

theorem matrix_recurrence_witness:
  "(length ''AAAA'' + 1) * (length ''AACAAA'' + 1) \<le> (2::nat) ^ 24 \<and>
   (1::nat) \<le> 2 \<and> (2::nat) \<le> length ''AAAA'' \<and> (1::nat) \<le> 3 \<and> (3::nat) \<le> length ''AACAAA'' \<and>
   score_at ''AAAA'' ''AACAAA'' 2 3 =
     max (max (max (score_at ''AAAA'' ''AACAAA'' 1 2 + (if ''AAAA'' ! 1 = ''AACAAA'' ! 2 then 1 else - 1))
                   (score_at ''AAAA'' ''AACAAA'' 1 3 - 1))
              (score_at ''AAAA'' ''AACAAA'' 2 2 - 1)) 0"
proof -
  have h: "(length ''AAAA'' + 1) * (length ''AACAAA'' + 1) \<le> (2::nat) ^ 24"
    "(1::nat) \<le> 2" "(2::nat) \<le> length ''AAAA''" "(1::nat) \<le> 3" "(3::nat) \<le> length ''AACAAA''"
    by simp_all
  have "score_at ''AAAA'' ''AACAAA'' 2 3 =
     max (max (max (score_at ''AAAA'' ''AACAAA'' (2 - 1) (3 - 1)
                      + (if ''AAAA'' ! (2 - 1) = ''AACAAA'' ! (3 - 1) then 1 else - 1))
                   (score_at ''AAAA'' ''AACAAA'' (2 - 1) 3 - 1))
              (score_at ''AAAA'' ''AACAAA'' 2 (3 - 1) - 1)) 0"
    using matrix_recurrence [OF h] by blast
  moreover have "(2::nat) - 1 = 1" "(3::nat) - 1 = 2" by simp_all
  ultimately show ?thesis using h by (simp only:)
qed

subsection \<open>Claim C5: an empty residue string\<close>

text \<open>
  C5. The claim says that an input with an empty residue string is rejected as
  InvalidInput before the matrix is built. The program has no validation: for the empty
  string against \<open>A\<close> it allocates the grid of two cells (four entries of the buffer),
  runs the loop and the traceback, and only the statistics fail, with the TypeError that
  any input without a positive score ends in.
\<close>

theorem empty_input_not_rejected:
  "fill [] ''A'' = \<lparr>permutations = [0, 0, 0, 0], maxScore = 0, maxIndex = 0\<rparr> \<and>
   analize \<lparr>name = ''>a'', sequence = []\<rparr> \<lparr>name = ''>b'', sequence = ''A''\<rparr>
     = Some (Inl TypeError)"
proof -
  have "fill [] ''A'' = \<lparr>permutations = [0, 0, 0, 0], maxScore = 0, maxIndex = 0\<rparr>"
    by code_simp
  moreover have "analize \<lparr>name = ''>a'', sequence = []\<rparr> \<lparr>name = ''>b'', sequence = ''A''\<rparr>
     = Some (Inl TypeError)"
    by code_simp
  ultimately show ?thesis by simp
qed

text \<open>
  C5, as amended. When either residue string is empty the engine does not reject the
  input: it builds the degenerate grid of \<open>(n+1)(m+1)\<close> boundary cells, all zero, the
  maximal score and the maximal index stay 0, and the traceback exits at once without
  emitting a record.
\<close>

theorem empty_input_builds_grid:
  assumes "sequence q1 = [] \<or> sequence q2 = []"
  shows "fill (sequence q1) (sequence q2) =
           \<lparr> permutations =
               replicate ((length (sequence q1) + 1) * (length (sequence q2) + 1) * 2) 0,
             maxScore = 0, maxIndex = 0 \<rparr> \<and>
         traceback (sequence q1) (sequence q2) (permutations (fill (sequence q1) (sequence q2)))
           (tb_init (maxIndex (fill (sequence q1) (sequence q2)))) = Some (tb_init 0) \<and>
         result (tb_init 0) = []"
proof -
  note f = fill_degenerate [OF assms]
  have z: "maxIndex (fill (sequence q1) (sequence q2)) = 0" by (simp add: f)
  have "tb_stop (permutations (fill (sequence q1) (sequence q2))) (nxt (tb_init 0))"
    by (simp add: tb_stop_def tb_init_def)
  then have "traceback (sequence q1) (sequence q2) (permutations (fill (sequence q1) (sequence q2)))
             (tb_init (maxIndex (fill (sequence q1) (sequence q2)))) = Some (tb_init 0)"
    unfolding z by (subst traceback.simps) simp
  then show ?thesis using f by (simp add: tb_init_sel)
qed

theorem empty_input_builds_grid_witness:
  "(sequence \<lparr>name = ''>a'', sequence = []\<rparr> = [] \<or>
    sequence \<lparr>name = ''>b'', sequence = ''ACGT''\<rparr> = []) \<and>
   fill (sequence \<lparr>name = ''>a'', sequence = []\<rparr>) (sequence \<lparr>name = ''>b'', sequence = ''ACGT''\<rparr>) =
     \<lparr> permutations =
         replicate ((length (sequence \<lparr>name = ''>a'', sequence = []\<rparr>) + 1)
                    * (length (sequence \<lparr>name = ''>b'', sequence = ''ACGT''\<rparr>) + 1) * 2) 0,
       maxScore = 0, maxIndex = 0 \<rparr> \<and>
   traceback (sequence \<lparr>name = ''>a'', sequence = []\<rparr>) (sequence \<lparr>name = ''>b'', sequence = ''ACGT''\<rparr>)
     (permutations (fill (sequence \<lparr>name = ''>a'', sequence = []\<rparr>)
                         (sequence \<lparr>name = ''>b'', sequence = ''ACGT''\<rparr>)))
     (tb_init (maxIndex (fill (sequence \<lparr>name = ''>a'', sequence = []\<rparr>)
                              (sequence \<lparr>name = ''>b'', sequence = ''ACGT''\<rparr>))))
     = Some (tb_init 0)"
proof -
  have a: "sequence \<lparr>name = ''>a'', sequence = []\<rparr> = [] \<or>
           sequence \<lparr>name = ''>b'', sequence = ''ACGT''\<rparr> = []"
    by simp
  show ?thesis using a empty_input_builds_grid [OF a] by blast
qed

subsection \<open>Claim C6: the class of each emitted step\<close>

text \<open>
  C6. Whatever the buffer holds and wherever the traceback starts, when the loop exits
  every emitted step is classified by the rule \<open>classify\<close>: equal residues give
  \<open>GOOD_MATCH\<close>; unequal residues give \<open>B_NOMATCH\<close> when the step's index in
  sequence 1 equals that of the step emitted before it, else \<open>A_NOMATCH\<close> when its
  index in sequence 2 equals that of the step emitted before it, else \<open>NO_MATCH\<close>.
  The step emitted first is compared with the initial values 0 of \<open>iA\<close> and \<open>iB\<close>.
  The gap counter ends as the number of \<open>B_NOMATCH\<close> and \<open>A_NOMATCH\<close> records, and
  the match counter as the number of \<open>GOOD_MATCH\<close> records.
\<close>

theorem traceback_classification:
  assumes "traceback s1 s2 buf (tb_init start) = Some tb"
  shows "(\<forall>j<length (result tb).
            res (result tb ! j) =
              classify (char_at s1 (iA (result tb ! j))) (char_at s2 (iB (result tb ! j)))
                (if j = 0 then 0 else iA (result tb ! (j - 1)))
                (if j = 0 then 0 else iB (result tb ! (j - 1)))
                (iA (result tb ! j)) (iB (result tb ! j))) \<and>
         gaps tb = length (filter is_gap (result tb)) \<and>
         matches tb = length (filter is_match (result tb))"
proof -
  have "tb_run s1 s2 buf (tb_init start) tb" using assms by (rule traceback_tb_run)
  then obtain rs where rs: "result tb = result (tb_init start) @ rs"
    "classified s1 s2 (prevA (tb_init start)) (prevB (tb_init start)) rs"
    "gaps tb = gaps (tb_init start) + length (filter is_gap rs)"
    "matches tb = matches (tb_init start) + length (filter is_match rs)"
    using tb_run_classified by blast
  have e: "result tb = rs" using rs(1) by (simp add: tb_init_sel)
  have c: "classified s1 s2 0 0 (result tb)" using rs(2) e by (simp add: tb_init_sel)
  show ?thesis
    using classified_nth [OF c] rs(3,4) e by (simp add: tb_init_sel)
qed

theorem traceback_classification_witness:
  "\<exists>tb. traceback ''GCGGACG'' ''CGGCCACG'' (permutations (fill ''GCGGACG'' ''CGGCCACG''))
           (tb_init 71) = Some tb \<and>
     length (result tb) = 8 \<and>
     res (result tb ! 4) = B_NOMATCH \<and> iA (result tb ! 4) = iA (result tb ! 3) \<and>
     res (result tb ! 4) =
        classify (char_at ''GCGGACG'' (iA (result tb ! 4))) (char_at ''CGGCCACG'' (iB (result tb ! 4)))
          (iA (result tb ! 3)) (iB (result tb ! 3)) (iA (result tb ! 4)) (iB (result tb ! 4)) \<and>
     gaps tb = 1 \<and> gaps tb = length (filter is_gap (result tb)) \<and>
     matches tb = length (filter is_match (result tb))"
proof -
  define tb where "tb = \<lparr>nxt = Some 1,
       result = [\<lparr>iA = 6, iB = 7, res = GOOD_MATCH\<rparr>, \<lparr>iA = 5, iB = 6, res = GOOD_MATCH\<rparr>,
                 \<lparr>iA = 4, iB = 5, res = GOOD_MATCH\<rparr>, \<lparr>iA = 3, iB = 4, res = NO_MATCH\<rparr>,
                 \<lparr>iA = 3, iB = 3, res = B_NOMATCH\<rparr>, \<lparr>iA = 3, iB = 2, res = GOOD_MATCH\<rparr>,
                 \<lparr>iA = 2, iB = 1, res = GOOD_MATCH\<rparr>, \<lparr>iA = 1, iB = 0, res = GOOD_MATCH\<rparr>],
       prevA = 1, prevB = 0, gaps = 1, matches = 6\<rparr>"
  have e: "traceback ''GCGGACG'' ''CGGCCACG'' (permutations (fill ''GCGGACG'' ''CGGCCACG''))
           (tb_init 71) = Some tb"
    unfolding tb_def by code_simp
  note t = traceback_classification [OF e]
  have l: "length (result tb) = 8" "res (result tb ! 4) = B_NOMATCH"
    "iA (result tb ! 4) = iA (result tb ! 3)" "gaps tb = 1"
    by (simp_all add: tb_def)
  have "(4::nat) < length (result tb)" using l(1) by simp
  then have "res (result tb ! 4) =
              classify (char_at ''GCGGACG'' (iA (result tb ! 4))) (char_at ''CGGCCACG'' (iB (result tb ! 4)))
                (if (4::nat) = 0 then 0 else iA (result tb ! (4 - 1)))
                (if (4::nat) = 0 then 0 else iB (result tb ! (4 - 1)))
                (iA (result tb ! 4)) (iB (result tb ! 4))"
    using t by blast
  then have "res (result tb ! 4) =
        classify (char_at ''GCGGACG'' (iA (result tb ! 4))) (char_at ''CGGCCACG'' (iB (result tb ! 4)))
          (iA (result tb ! 3)) (iB (result tb ! 3)) (iA (result tb ! 4)) (iB (result tb ! 4))"
    by simp
  then show ?thesis using e l t by blast
qed

subsection \<open>Claim C7: exchanging the two sequences\<close>

text \<open>
  C7. The claim says that aligning \<open>(A, B)\<close> and \<open>(B, A)\<close> gives the same
  \<open>alignmentLength\<close> and the same \<open>alignmentMatchPercent\<close>. For \<open>AAAA\<close> and
  \<open>AACAAA\<close> it does not: in one order the alignment has 5 records, 4 of them matches,
  in the other 3 records, all matches. Both reach the maximal score 3; the first
  maximum of the row-major scan and the order diagonal, left, top pick different paths.
\<close>

theorem alignment_not_symmetric:
  "\<exists>al1 st1 al2 st2.
     analize \<lparr>name = ''>a'', sequence = ''AAAA''\<rparr> \<lparr>name = ''>b'', sequence = ''AACAAA''\<rparr> = Some (Inr (al1, st1)) \<and>
     analize \<lparr>name = ''>b'', sequence = ''AACAAA''\<rparr> \<lparr>name = ''>a'', sequence = ''AAAA''\<rparr> = Some (Inr (al2, st2)) \<and>
     alignmentLength st1 = 5 \<and> alignmentLength st2 = 3 \<and>
     alignmentMatchPercent st1 = 4 / 5 \<and> alignmentMatchPercent st2 = 1 \<and>
     alignmentLength st1 \<noteq> alignmentLength st2 \<and>
     alignmentMatchPercent st1 \<noteq> alignmentMatchPercent st2"
proof -
  have "analize \<lparr>name = ''>a'', sequence = ''AAAA''\<rparr> \<lparr>name = ''>b'', sequence = ''AACAAA''\<rparr> =
    Some (Inr ([\<lparr>iA = 0, iB = 0, res = GOOD_MATCH\<rparr>, \<lparr>iA = 1, iB = 1, res = GOOD_MATCH\<rparr>,
      \<lparr>iA = 1, iB = 2, res = NO_MATCH\<rparr>, \<lparr>iA = 2, iB = 3, res = GOOD_MATCH\<rparr>,
      \<lparr>iA = 3, iB = 4, res = GOOD_MATCH\<rparr>],
      \<lparr>stat_permutations = 35, alignmentLength = 5, alignmentMatchPercent = 4 / 5,
       sequence1 = \<lparr>seq_name = ''>a'', seq_length = 4, seq_start = 0, seq_end = 3\<rparr>,
       sequence2 = \<lparr>seq_name = ''>b'', seq_length = 6, seq_start = 0, seq_end = 4\<rparr>\<rparr>))"
    by code_simp
  moreover have "analize \<lparr>name = ''>b'', sequence = ''AACAAA''\<rparr> \<lparr>name = ''>a'', sequence = ''AAAA''\<rparr> =
    Some (Inr ([\<lparr>iA = 3, iB = 0, res = GOOD_MATCH\<rparr>, \<lparr>iA = 4, iB = 1, res = GOOD_MATCH\<rparr>,
      \<lparr>iA = 5, iB = 2, res = GOOD_MATCH\<rparr>],
      \<lparr>stat_permutations = 35, alignmentLength = 3, alignmentMatchPercent = 1,
       sequence1 = \<lparr>seq_name = ''>b'', seq_length = 6, seq_start = 3, seq_end = 5\<rparr>,
       sequence2 = \<lparr>seq_name = ''>a'', seq_length = 4, seq_start = 0, seq_end = 2\<rparr>\<rparr>))"
    by code_simp
  ultimately show ?thesis by simp
qed

text \<open>
  C7, as amended. Aligning \<open>(A, B)\<close> and \<open>(B, A)\<close> fills transposed score
  matrices, \<open>score(B, A)(y, x) = score(A, B)(x, y)\<close>, and finds the same maximal
  score; nothing is said of the alignment's length or match percentage.
\<close>

theorem transposed_scores:
  "maxScore (fill s2 s1) = maxScore (fill s1 s2) \<and>
   (\<forall>x y. x \<le> length s1 \<and> y \<le> length s2 \<longrightarrow> score_at s2 s1 y x = score_at s1 s2 x y)"
  using max_score_le_transposed [of s1 s2] max_score_le_transposed [of s2 s1]
    score_transpose [of _ s1 _ s2]
  by (simp add: order_antisym)

theorem transposed_scores_witness:
  "maxScore (fill ''AACAAA'' ''AAAA'') = maxScore (fill ''AAAA'' ''AACAAA'') \<and>
   (2::nat) \<le> length ''AAAA'' \<and> (3::nat) \<le> length ''AACAAA'' \<and>
   score_at ''AACAAA'' ''AAAA'' 3 2 = score_at ''AAAA'' ''AACAAA'' 2 3"
proof -
  have a: "(2::nat) \<le> length ''AAAA'' \<and> (3::nat) \<le> length ''AACAAA''" by simp
  show ?thesis using a transposed_scores [of "''AACAAA''" "''AAAA''"] by blast
qed

subsection \<open>Claim C8: scores are never negative, the boundary is zero\<close>

text \<open>
  C8. For every pair of residue strings, every cell \<open>(x, y)\<close> of the
  \<open>(n+1) \<times> (m+1)\<close> matrix holds a score \<open>\<ge> 0\<close>, and every cell of row 0 or
  column 0 holds score 0 and next index 0 (no predecessor). This needs no bound on the
  size of the grid: rounding a non-negative number gives a non-negative number, and the
  loop never writes a boundary cell.
\<close>

theorem matrix_nonneg_boundary_zero:
  assumes "x \<le> length s1" and "y \<le> length s2"
  shows "0 \<le> score_at s1 s2 x y \<and>
         ((x = 0 \<or> y = 0) \<longrightarrow> score_at s1 s2 x y = 0 \<and> next_at s1 s2 x y = 0)"
proof -
  note p = cell_index_props [OF assms]
  have "0 \<le> score_at s1 s2 x y" unfolding score_at_def by (rule score_nonneg [OF p(1)])
  moreover have "score_at s1 s2 x y = 0 \<and> next_at s1 s2 x y = 0" if "x = 0 \<or> y = 0"
  proof -
    have "\<not> interior (length s1 + 1) (cell_index s1 x y)"
      using that cell_index_interior [OF assms] by blast
    then show ?thesis
      unfolding score_at_def next_at_def using buf_boundary [OF p(1)] by simp
  qed
  ultimately show ?thesis by blast
qed

theorem matrix_nonneg_boundary_zero_witness:
  "(0::nat) \<le> length ''AACAAA'' \<and> (3::nat) \<le> length ''AAAA'' \<and>
   0 \<le> score_at ''AACAAA'' ''AAAA'' 0 3 \<and>
   score_at ''AACAAA'' ''AAAA'' 0 3 = 0 \<and> next_at ''AACAAA'' ''AAAA'' 0 3 = 0"
proof -
  have a: "(0::nat) \<le> length ''AACAAA''" and b: "(3::nat) \<le> length ''AAAA''" by simp_all
  show ?thesis using a b matrix_nonneg_boundary_zero [OF a b] by blast
qed

subsection \<open>Claim C9: the first and the last record are matches\<close>

text \<open>
  C9. On a grid of at most \<open>2 ^ 24\<close> cells (where the buffer holds every index
  exactly) \<open>analize\<close> returns, and whenever it returns an alignment, the alignment is
  not empty and both its first and its last record are \<open>GOOD_MATCH\<close>: the maximal cell
  is reached by a diagonal step on equal residues, and so is the cell whose next cell
  stops the traceback. So the variables \<open>iA\<close> and \<open>iB\<close>, which start at 0, play no
  part in the class of the first emitted step.
\<close>

theorem first_and_last_records_match:
  assumes "(length (sequence q1) + 1) * (length (sequence q2) + 1) \<le> 2 ^ 24"
  shows "analize q1 q2 \<noteq> None \<and>
         (\<forall>al stats. analize q1 q2 = Some (Inr (al, stats)) \<longrightarrow>
            al \<noteq> [] \<and> res (hd al) = GOOD_MATCH \<and> res (last al) = GOOD_MATCH)"
proof -
  have bound: "ncells (sequence q1) (sequence q2) \<le> 2 ^ 24" using assms by (simp add: ncells_def)
  have "al \<noteq> [] \<and> res (hd al) = GOOD_MATCH \<and> res (last al) = GOOD_MATCH"
    if an: "analize q1 q2 = Some (Inr (al, stats))" for al stats
  proof -
    obtain rs where rs: "al = rev rs" "rs \<noteq> []" "is_match (hd rs)" "is_match (last rs)"
      using analize_path [OF bound an] by blast
    show ?thesis using rs by (simp add: hd_rev last_rev is_match_def)
  qed
  then show ?thesis using analize_total [OF bound] by blast
qed

theorem first_and_last_records_match_witness:
  "(length ''AAAA'' + 1) * (length ''AACAAA'' + 1) \<le> (2::nat) ^ 24 \<and>
   (\<exists>al stats. analize \<lparr>name = ''>a'', sequence = ''AAAA''\<rparr> \<lparr>name = ''>b'', sequence = ''AACAAA''\<rparr> = Some (Inr (al, stats)) \<and>
      al \<noteq> [] \<and> res (hd al) = GOOD_MATCH \<and> res (last al) = GOOD_MATCH)"
proof -
  have b: "(length (sequence \<lparr>name = ''>a'', sequence = ''AAAA''\<rparr>) + 1) * (length (sequence \<lparr>name = ''>b'', sequence = ''AACAAA''\<rparr>) + 1) \<le> 2 ^ 24"
    by simp
  have e: "analize \<lparr>name = ''>a'', sequence = ''AAAA''\<rparr> \<lparr>name = ''>b'', sequence = ''AACAAA''\<rparr> =
    Some (Inr ([\<lparr>iA = 0, iB = 0, res = GOOD_MATCH\<rparr>, \<lparr>iA = 1, iB = 1, res = GOOD_MATCH\<rparr>,
      \<lparr>iA = 1, iB = 2, res = NO_MATCH\<rparr>, \<lparr>iA = 2, iB = 3, res = GOOD_MATCH\<rparr>,
      \<lparr>iA = 3, iB = 4, res = GOOD_MATCH\<rparr>],
      \<lparr>stat_permutations = 35, alignmentLength = 5, alignmentMatchPercent = 4 / 5,
       sequence1 = \<lparr>seq_name = ''>a'', seq_length = 4, seq_start = 0, seq_end = 3\<rparr>,
       sequence2 = \<lparr>seq_name = ''>b'', seq_length = 6, seq_start = 0, seq_end = 4\<rparr>\<rparr>))"
    by code_simp
  have "(length ''AAAA'' + 1) * (length ''AACAAA'' + 1) \<le> (2::nat) ^ 24" by simp
  then show ?thesis using e first_and_last_records_match [OF b] by blast
qed

subsection \<open>Claim C10: the shape of the alignment\<close>

text \<open>
  C10. On a grid of at most \<open>2 ^ 24\<close> cells \<open>analize\<close> returns, and in every
  alignment it returns each record follows the one before it by a step of 0 or 1 in
  \<open>iA\<close> and of 0 or 1 in \<open>iB\<close>, never 0 in both (\<open>step_ok\<close>); every index lies
  inside its sequence; and there are at most \<open>len(A) + len(B)\<close> records.
\<close>

theorem alignment_steps:
  assumes "(length (sequence q1) + 1) * (length (sequence q2) + 1) \<le> 2 ^ 24"
  shows "analize q1 q2 \<noteq> None \<and>
         (\<forall>al stats. analize q1 q2 = Some (Inr (al, stats)) \<longrightarrow>
            successively step_ok al \<and>
            (\<forall>r \<in> set al. 0 \<le> iA r \<and> iA r < int (length (sequence q1)) \<and>
                            0 \<le> iB r \<and> iB r < int (length (sequence q2))) \<and>
            length al \<le> length (sequence q1) + length (sequence q2))"
proof -
  have bound: "ncells (sequence q1) (sequence q2) \<le> 2 ^ 24" using assms by (simp add: ncells_def)
  have "successively step_ok al \<and>
            (\<forall>r \<in> set al. 0 \<le> iA r \<and> iA r < int (length (sequence q1)) \<and>
                            0 \<le> iB r \<and> iB r < int (length (sequence q2))) \<and>
            length al \<le> length (sequence q1) + length (sequence q2)"
    if an: "analize q1 q2 = Some (Inr (al, stats))" for al stats
  proof -
    define W where "W = length (sequence q1) + 1"
    define c where "c = maxIndex (fill (sequence q1) (sequence q2))"
    obtain rs where rs: "al = rev rs" "rs \<noteq> []" "path_from W c rs"
      "c < ncells (sequence q1) (sequence q2)"
      using analize_path [OF bound an] unfolding W_def c_def by blast
    have x: "c mod W \<le> length (sequence q1)" unfolding W_def
      using mod_less_divisor [of "length (sequence q1) + 1" c] by simp
    have "c < (length (sequence q2) + 1) * W" using rs(4) by (simp add: ncells_def W_def mult.commute)
    then have "c div W < length (sequence q2) + 1" by (rule less_mult_imp_div_less)
    then have y: "c div W \<le> length (sequence q2)" by simp
    have s: "successively step_ok al"
      unfolding rs(1) using path_successively [OF rs(3)] by simp
    have b: "0 \<le> iA r \<and> iA r < int (length (sequence q1)) \<and>
             0 \<le> iB r \<and> iB r < int (length (sequence q2))" if "r \<in> set al" for r
    proof -
      have "r \<in> set rs" using that rs(1) by simp
      then have "0 \<le> iA r \<and> iA r \<le> int (c mod W) - 1 \<and> 0 \<le> iB r \<and> iB r \<le> int (c div W) - 1"
        by (rule path_bounds [OF rs(3)])
      then show ?thesis using x y by linarith
    qed
    have "Suc (length rs) \<le> c mod W + c div W" by (rule path_length [OF rs(3,2)])
    then have "length al \<le> length (sequence q1) + length (sequence q2)"
      using x y rs(1) by simp
    then show ?thesis using s b by blast
  qed
  then show ?thesis using analize_total [OF bound] by blast
qed

theorem alignment_steps_witness:
  "(length ''AAAA'' + 1) * (length ''AACAAA'' + 1) \<le> (2::nat) ^ 24 \<and>
   (\<exists>al stats. analize \<lparr>name = ''>a'', sequence = ''AAAA''\<rparr> \<lparr>name = ''>b'', sequence = ''AACAAA''\<rparr> = Some (Inr (al, stats)) \<and>
      successively step_ok al \<and> length al \<le> length ''AAAA'' + length ''AACAAA'')"
proof -
  have b: "(length (sequence \<lparr>name = ''>a'', sequence = ''AAAA''\<rparr>) + 1) * (length (sequence \<lparr>name = ''>b'', sequence = ''AACAAA''\<rparr>) + 1) \<le> 2 ^ 24"
    by simp
  have e: "analize \<lparr>name = ''>a'', sequence = ''AAAA''\<rparr> \<lparr>name = ''>b'', sequence = ''AACAAA''\<rparr> =
    Some (Inr ([\<lparr>iA = 0, iB = 0, res = GOOD_MATCH\<rparr>, \<lparr>iA = 1, iB = 1, res = GOOD_MATCH\<rparr>,
      \<lparr>iA = 1, iB = 2, res = NO_MATCH\<rparr>, \<lparr>iA = 2, iB = 3, res = GOOD_MATCH\<rparr>,
      \<lparr>iA = 3, iB = 4, res = GOOD_MATCH\<rparr>],
      \<lparr>stat_permutations = 35, alignmentLength = 5, alignmentMatchPercent = 4 / 5,
       sequence1 = \<lparr>seq_name = ''>a'', seq_length = 4, seq_start = 0, seq_end = 3\<rparr>,
       sequence2 = \<lparr>seq_name = ''>b'', seq_length = 6, seq_start = 0, seq_end = 4\<rparr>\<rparr>))"
    by code_simp
  have "(length ''AAAA'' + 1) * (length ''AACAAA'' + 1) \<le> (2::nat) ^ 24" by simp
  moreover have "successively step_ok [\<lparr>iA = 0, iB = 0, res = GOOD_MATCH\<rparr>, \<lparr>iA = 1, iB = 1, res = GOOD_MATCH\<rparr>,
      \<lparr>iA = 1, iB = 2, res = NO_MATCH\<rparr>, \<lparr>iA = 2, iB = 3, res = GOOD_MATCH\<rparr>,
      \<lparr>iA = 3, iB = 4, res = GOOD_MATCH\<rparr>] \<and>
     length [\<lparr>iA = 0, iB = 0, res = GOOD_MATCH\<rparr>, \<lparr>iA = 1, iB = 1, res = GOOD_MATCH\<rparr>,
      \<lparr>iA = 1, iB = 2, res = NO_MATCH\<rparr>, \<lparr>iA = 2, iB = 3, res = GOOD_MATCH\<rparr>,
      \<lparr>iA = 3, iB = 4, res = GOOD_MATCH\<rparr>] \<le> length ''AAAA'' + length ''AACAAA''"
    using e alignment_steps [OF b] by simp
  ultimately show ?thesis using e by blast
qed

end
